theory Spec2Isabelle
  imports Main "HOL-Library.Word"
begin

unbundle bit_operations_syntax

section \<open>Data model of schedule.c\<close>

text \<open>
  Function pointers (\<^verbatim>\<open>CallbackFn\<close>, \<^verbatim>\<open>CalloutFn\<close>) are modelled by their address,
  a natural number; the null pointer is 0.
\<close>

type_synonym CallbackFn = nat
type_synonym CalloutFn = nat

text \<open>
  The headers global.h, schedule.h and config.h are not part of the sources. What
  schedule.c takes from them is a parameter of the model: the two capacities, the
  tick multiplier \<^verbatim>\<open>_MILLISECOND\<close>, and the sizes of the two types that
  \<^verbatim>\<open>CallbackRegister\<close> divides to obtain its capacity bound.
\<close>

record config =
  MAX_CALLBACK_CNT :: nat
  MAX_CALLOUT_CNT :: nat
  MILLISECOND :: "32 word"
  sizeof_CallbackEvent :: nat
  sizeof_CallbackFn :: nat

text \<open>
  \<^verbatim>\<open>CallbackEvent\<close> is declared in schedule.h; schedule.c uses the four fields
  below. The two times are 32-bit, as the global \<^verbatim>\<open>now\<close> they are compared with.
\<close>

record CallbackEvent =
  enabled :: bool
  func :: CallbackFn
  run_time :: "32 word"
  next_run_time :: "32 word"

record CalloutEvent =
  co_func :: CalloutFn
  co_run_time :: "32 word"

text \<open>
  The file-scope variables: \<^verbatim>\<open>now\<close> (uint32_t), \<^verbatim>\<open>event_count\<close> (uint8_t),
  \<^verbatim>\<open>callback_store\<close>, \<^verbatim>\<open>callout_map\<close> (uint16_t) and \<^verbatim>\<open>callout_store\<close>.
\<close>

record sched =
  now :: "32 word"
  event_count :: "8 word"
  callback_store :: "CallbackEvent list"
  callout_map :: "16 word"
  callout_store :: "CalloutEvent list"

datatype status = SUCCESS | FAILURE

text \<open>
  A write behind the end of \<^verbatim>\<open>callback_store\<close> is undefined behaviour in C; the
  model reports it as a fault carrying the offending index.
\<close>

datatype fault = OutOfBounds nat

text \<open>
  The handlers are called through function pointers. What a handler does to the
  scheduler's variables is a parameter \<open>beh\<close> of the model: \<open>beh h s\<close> is the state
  after running handler \<open>h\<close> in state \<open>s\<close>. Each call is recorded as an event with the
  index of the entry it was called from.
\<close>

type_synonym behaviour = "nat \<Rightarrow> sched \<Rightarrow> sched"

datatype event = CallbackFired nat CallbackFn | CalloutFired nat CalloutFn

fun index_of :: "event \<Rightarrow> nat" where
  "index_of (CallbackFired i h) = i"
| "index_of (CalloutFired i h) = i"

fun handler_of :: "event \<Rightarrow> nat" where
  "handler_of (CallbackFired i h) = h"
| "handler_of (CalloutFired i h) = h"

fun is_callback :: "event \<Rightarrow> bool" where
  "is_callback (CallbackFired i h) = True"
| "is_callback (CalloutFired i h) = False"

text \<open>Static storage is zero-initialised.\<close>

definition init :: "config \<Rightarrow> sched" where
  "init cfg =
     \<lparr>now = 0, event_count = 0,
      callback_store = replicate (MAX_CALLBACK_CNT cfg)
        \<lparr>enabled = False, func = 0, run_time = 0, next_run_time = 0\<rparr>,
      callout_map = 0,
      callout_store = replicate (MAX_CALLOUT_CNT cfg) \<lparr>co_func = 0, co_run_time = 0\<rparr>\<rparr>"

text \<open>\<^verbatim>\<open>_BV(i)\<close> is \<^verbatim>\<open>1 << i\<close>.\<close>

definition BV :: "nat \<Rightarrow> 16 word" where
  "BV i = push_bit i 1"

section \<open>Clock\<close>

definition TimeNow :: "sched \<Rightarrow> 32 word" where
  "TimeNow s = now s"

section \<open>Callbacks\<close>

text \<open>
  The bound of \<^verbatim>\<open>CallbackRegister\<close> is \<^verbatim>\<open>sizeof(callback_store)/sizeof(CallbackFn)\<close>:
  the size of the whole array divided by the size of a function pointer. The array is
  declared with \<^verbatim>\<open>MAX_CALLBACK_CNT\<close> elements: an index that passes the test of
  the source and is not below \<^verbatim>\<open>MAX_CALLBACK_CNT\<close> is a write out of bounds.
\<close>

definition callback_bound :: "config \<Rightarrow> nat" where
  "callback_bound cfg = (MAX_CALLBACK_CNT cfg * sizeof_CallbackEvent cfg) div sizeof_CallbackFn cfg"

definition CallbackRegister ::
  "config \<Rightarrow> CallbackFn \<Rightarrow> 32 word \<Rightarrow> sched \<Rightarrow> fault + (status \<times> sched)" where
  "CallbackRegister cfg fn rt s =
     (if unat (event_count s) < callback_bound cfg then
        (if unat (event_count s) < MAX_CALLBACK_CNT cfg then
           Inr (SUCCESS,
                s\<lparr>callback_store := (callback_store s)[unat (event_count s) :=
                     \<lparr>enabled = False, func = fn, run_time = rt - 1,
                      next_run_time = now s + rt * MILLISECOND cfg\<rparr>],
                  event_count := event_count s + 1\<rparr>)
         else Inl (OutOfBounds (unat (event_count s))))
      else Inr (FAILURE, s))"

text \<open>
  The loop of \<^verbatim>\<open>CallbackService\<close>, from index \<open>i\<close> with \<open>rem\<close> the value of
  \<^verbatim>\<open>callbacks_remaining\<close> (a uint8_t, decremented with wrap-around). The loop bound
  \<^verbatim>\<open>event_count\<close> is read again at every iteration.
\<close>

function CallbackService_loop ::
  "config \<Rightarrow> behaviour \<Rightarrow> 32 word \<Rightarrow> nat \<Rightarrow> 8 word \<Rightarrow> sched \<Rightarrow> event list \<times> sched" where
  "CallbackService_loop cfg beh ct i rem s =
     (if i < unat (event_count s) then
        (if enabled (callback_store s ! i) \<and> ct = next_run_time (callback_store s ! i) then
           (let e = callback_store s ! i;
                s1 = s\<lparr>callback_store := (callback_store s)[i :=
                        e\<lparr>next_run_time := ct + run_time e * MILLISECOND cfg\<rparr>]\<rparr>;
                s2 = beh (func e) s1
            in if rem - 1 = 0 then ([CallbackFired i (func e)], s2)
               else (case CallbackService_loop cfg beh ct (i + 1) (rem - 1) s2 of
                       (tr, s3) \<Rightarrow> (CallbackFired i (func e) # tr, s3)))
         else CallbackService_loop cfg beh ct (i + 1) rem s)
      else ([], s))"
  by pat_completeness auto
termination
proof (relation "measures [\<lambda>(cfg, beh, ct, i, rem, s). unat (rem - 1),
                           \<lambda>(cfg, beh, ct, i, rem, s). unat (event_count s) - i]", goal_cases)
  case 1
  show ?case by simp
next
  case 2
  have "unat (r - 1 - 1) < unat (r - 1)" if "r - 1 \<noteq> 0" for r :: "8 word"
    using that unat_minus_one [of "r - 1"] unat_gt_0 [of "r - 1"] by arith
  with 2 show ?case by simp
next
  case 3
  then show ?case by simp
qed

declare CallbackService_loop.simps [simp del]

definition CallbackService :: "config \<Rightarrow> behaviour \<Rightarrow> 32 word \<Rightarrow> sched \<Rightarrow> event list \<times> sched" where
  "CallbackService cfg beh current_time s =
     (if event_count s = 0 then ([], s)
      else CallbackService_loop cfg beh current_time 0 (event_count s) s)"

text \<open>\<^verbatim>\<open>enum ScheduleMode\<close> has a false and a true value; it is modelled as \<open>bool\<close>.\<close>

function CallbackMode_loop :: "config \<Rightarrow> CallbackFn \<Rightarrow> bool \<Rightarrow> nat \<Rightarrow> sched \<Rightarrow> sched" where
  "CallbackMode_loop cfg fn mode i s =
     (if i < unat (event_count s) then
        (if fn = func (callback_store s ! i) then
           (let s1 = s\<lparr>callback_store := (callback_store s)[i :=
                        (callback_store s ! i)\<lparr>enabled := mode\<rparr>]\<rparr>
            in if mode then
                 s1\<lparr>callback_store := (callback_store s1)[i :=
                      (callback_store s1 ! i)\<lparr>next_run_time :=
                         now s1 + run_time (callback_store s1 ! i) * MILLISECOND cfg\<rparr>]\<rparr>
               else s1)
         else CallbackMode_loop cfg fn mode (i + 1) s)
      else s)"
  by pat_completeness auto
termination
  by (relation "measure (\<lambda>(cfg, fn, mode, i, s). unat (event_count s) - i)") auto

declare CallbackMode_loop.simps [simp del]

definition CallbackMode :: "config \<Rightarrow> CallbackFn \<Rightarrow> bool \<Rightarrow> sched \<Rightarrow> sched" where
  "CallbackMode cfg fn mode s = CallbackMode_loop cfg fn mode 0 s"

section \<open>Callouts\<close>

text \<open>The bit count of \<^verbatim>\<open>get_callout_map_size\<close>; \<open>acc\<close> is the uint8_t \<^verbatim>\<open>sum\<close>.\<close>

function map_size_loop :: "8 word \<Rightarrow> 16 word \<Rightarrow> 8 word" where
  "map_size_loop acc m = (if m \<noteq> 0 then map_size_loop (acc + 1) (m AND (m - 1)) else acc)"
  by pat_completeness auto
termination
proof (relation "measure (\<lambda>(acc, m). unat m)")
  show "wf (measure (\<lambda>(acc, m). unat m))" by simp
next
  fix acc :: "8 word" and m :: "16 word"
  assume "m \<noteq> 0"
  then have "m - 1 < m"
    by (simp add: word_less_nat_alt unat_minus_one unat_gt_0)
  moreover have "m AND (m - 1) \<le> m - 1"
    by (rule word_and_le1)
  ultimately have "unat (m AND (m - 1)) < unat m"
    by (simp add: word_less_nat_alt word_le_nat_alt)
  then show "((acc + 1, m AND (m - 1)), (acc, m)) \<in> measure (\<lambda>(acc, m). unat m)"
    by simp
qed

declare map_size_loop.simps [simp del]

definition get_callout_map_size :: "sched \<Rightarrow> 8 word" where
  "get_callout_map_size s = map_size_loop 0 (callout_map s)"

function CalloutRegister_loop ::
  "config \<Rightarrow> CalloutFn \<Rightarrow> 32 word \<Rightarrow> nat \<Rightarrow> sched \<Rightarrow> status \<times> sched" where
  "CalloutRegister_loop cfg fn rt i s =
     (if i < MAX_CALLOUT_CNT cfg then
        (if \<not> (callout_map s AND BV i \<noteq> 0) then
           (SUCCESS,
            s\<lparr>callout_map := callout_map s OR BV i,
              callout_store := (callout_store s)[i :=
                \<lparr>co_func = fn, co_run_time = now s + rt * MILLISECOND cfg\<rparr>]\<rparr>)
         else CalloutRegister_loop cfg fn rt (i + 1) s)
      else (FAILURE, s))"
  by pat_completeness auto
termination
  by (relation "measure (\<lambda>(cfg, fn, rt, i, s). MAX_CALLOUT_CNT cfg - i)") auto

declare CalloutRegister_loop.simps [simp del]

definition CalloutRegister :: "config \<Rightarrow> CalloutFn \<Rightarrow> 32 word \<Rightarrow> sched \<Rightarrow> status \<times> sched" where
  "CalloutRegister cfg fn rt s =
     (if unat (get_callout_map_size s) \<noteq> MAX_CALLOUT_CNT cfg
      then CalloutRegister_loop cfg fn rt 0 s
      else (FAILURE, s))"

function CalloutCancel_loop :: "config \<Rightarrow> CalloutFn \<Rightarrow> nat \<Rightarrow> sched \<Rightarrow> sched" where
  "CalloutCancel_loop cfg fn i s =
     (if i < MAX_CALLOUT_CNT cfg then
        (if co_func (callout_store s ! i) = fn then
           s\<lparr>callout_map := callout_map s AND NOT (BV i)\<rparr>
         else CalloutCancel_loop cfg fn (i + 1) s)
      else s)"
  by pat_completeness auto
termination
  by (relation "measure (\<lambda>(cfg, fn, i, s). MAX_CALLOUT_CNT cfg - i)") auto

declare CalloutCancel_loop.simps [simp del]

definition CalloutCancel :: "config \<Rightarrow> CalloutFn \<Rightarrow> sched \<Rightarrow> sched" where
  "CalloutCancel cfg fn s = CalloutCancel_loop cfg fn 0 s"

text \<open>
  The loop of \<^verbatim>\<open>CalloutService\<close>, from slot \<open>i\<close> with \<open>rem\<close> the value of
  \<^verbatim>\<open>callouts_remaining\<close>. The handler runs before the slot's bit is cleared.
\<close>

function CalloutService_loop ::
  "config \<Rightarrow> behaviour \<Rightarrow> 32 word \<Rightarrow> nat \<Rightarrow> 8 word \<Rightarrow> sched \<Rightarrow> event list \<times> sched" where
  "CalloutService_loop cfg beh ct i rem s =
     (if i < MAX_CALLOUT_CNT cfg then
        (if callout_map s AND BV i \<noteq> 0 \<and> ct = co_run_time (callout_store s ! i) then
           (let h = co_func (callout_store s ! i);
                s1 = beh h s;
                s2 = s1\<lparr>callout_map := callout_map s1 AND NOT (BV i)\<rparr>
            in if rem - 1 = 0 then ([CalloutFired i h], s2)
               else (case CalloutService_loop cfg beh ct (i + 1) (rem - 1) s2 of
                       (tr, s3) \<Rightarrow> (CalloutFired i h # tr, s3)))
         else CalloutService_loop cfg beh ct (i + 1) rem s)
      else ([], s))"
  by pat_completeness auto
termination
  by (relation "measure (\<lambda>(cfg, beh, ct, i, rem, s). MAX_CALLOUT_CNT cfg - i)") auto

declare CalloutService_loop.simps [simp del]

definition CalloutService :: "config \<Rightarrow> behaviour \<Rightarrow> 32 word \<Rightarrow> sched \<Rightarrow> event list \<times> sched" where
  "CalloutService cfg beh current_time s =
     (if get_callout_map_size s = 0 then ([], s)
      else CalloutService_loop cfg beh current_time 0 (get_callout_map_size s) s)"

section \<open>The tick interrupt\<close>

text \<open>
  \<^verbatim>\<open>now++; CallbackService(now); CalloutService(now);\<close> where the global \<^verbatim>\<open>now\<close>
  is read again for the second call.
\<close>

definition ScheduleTimerOverflow :: "config \<Rightarrow> behaviour \<Rightarrow> sched \<Rightarrow> event list \<times> sched" where
  "ScheduleTimerOverflow cfg beh s =
     (let s0 = s\<lparr>now := now s + 1\<rparr> in
      case CallbackService cfg beh (now s0) s0 of
        (tr1, s1) \<Rightarrow>
          (case CalloutService cfg beh (now s1) s1 of
             (tr2, s2) \<Rightarrow> (tr1 @ tr2, s2)))"

text \<open>The state after \<open>n\<close> tick interrupts, and the events of the interrupt that follows.\<close>

fun ticks :: "config \<Rightarrow> behaviour \<Rightarrow> nat \<Rightarrow> sched \<Rightarrow> sched" where
  "ticks cfg beh 0 s = s"
| "ticks cfg beh (Suc n) s = snd (ScheduleTimerOverflow cfg beh (ticks cfg beh n s))"

definition fired_at :: "config \<Rightarrow> behaviour \<Rightarrow> nat \<Rightarrow> sched \<Rightarrow> event list" where
  "fired_at cfg beh n s = fst (ScheduleTimerOverflow cfg beh (ticks cfg beh n s))"

section \<open>The service passes as unconditional scans\<close>

text \<open>
  The scans the early-exit passes are compared with: each loop of the source with the
  remaining-count removed, so that every entry (every slot) is visited.
\<close>

function CallbackService_full_loop ::
  "config \<Rightarrow> behaviour \<Rightarrow> 32 word \<Rightarrow> nat \<Rightarrow> sched \<Rightarrow> event list \<times> sched" where
  "CallbackService_full_loop cfg beh ct i s =
     (if i < unat (event_count s) then
        (if enabled (callback_store s ! i) \<and> ct = next_run_time (callback_store s ! i) then
           (let e = callback_store s ! i;
                s1 = s\<lparr>callback_store := (callback_store s)[i :=
                        e\<lparr>next_run_time := ct + run_time e * MILLISECOND cfg\<rparr>]\<rparr>;
                s2 = beh (func e) s1
            in (case CallbackService_full_loop cfg beh ct (i + 1) s2 of
                  (tr, s3) \<Rightarrow> (CallbackFired i (func e) # tr, s3)))
         else CallbackService_full_loop cfg beh ct (i + 1) s)
      else ([], s))"
  by pat_completeness auto
termination
proof (relation "measure (\<lambda>(cfg, beh, ct, i, s). 256 - i)", goal_cases)
  case 1
  show ?case by simp
next
  case (2 cfg beh ct i s)
  have "unat (event_count s) < 256"
    using unsigned_less [of "event_count s", where ?'a = nat] by simp
  with 2 show ?case by simp
next
  case (3 cfg beh ct i s)
  have "unat (event_count s) < 256"
    using unsigned_less [of "event_count s", where ?'a = nat] by simp
  with 3 show ?case by simp
qed

declare CallbackService_full_loop.simps [simp del]

definition CallbackService_full :: "config \<Rightarrow> behaviour \<Rightarrow> 32 word \<Rightarrow> sched \<Rightarrow> event list \<times> sched" where
  "CallbackService_full cfg beh current_time s =
     CallbackService_full_loop cfg beh current_time 0 s"

function CalloutService_full_loop ::
  "config \<Rightarrow> behaviour \<Rightarrow> 32 word \<Rightarrow> nat \<Rightarrow> sched \<Rightarrow> event list \<times> sched" where
  "CalloutService_full_loop cfg beh ct i s =
     (if i < MAX_CALLOUT_CNT cfg then
        (if callout_map s AND BV i \<noteq> 0 \<and> ct = co_run_time (callout_store s ! i) then
           (let h = co_func (callout_store s ! i);
                s1 = beh h s;
                s2 = s1\<lparr>callout_map := callout_map s1 AND NOT (BV i)\<rparr>
            in (case CalloutService_full_loop cfg beh ct (i + 1) s2 of
                  (tr, s3) \<Rightarrow> (CalloutFired i h # tr, s3)))
         else CalloutService_full_loop cfg beh ct (i + 1) s)
      else ([], s))"
  by pat_completeness auto
termination
  by (relation "measure (\<lambda>(cfg, beh, ct, i, s). MAX_CALLOUT_CNT cfg - i)") auto

declare CalloutService_full_loop.simps [simp del]

definition CalloutService_full :: "config \<Rightarrow> behaviour \<Rightarrow> 32 word \<Rightarrow> sched \<Rightarrow> event list \<times> sched" where
  "CalloutService_full cfg beh current_time s = CalloutService_full_loop cfg beh current_time 0 s"

section \<open>Conditions on the configuration, the state and the handlers\<close>

text \<open>
  The occupancy map has 16 bits and the counters 8, so the capacities are bounded;
  a size is never 0.
\<close>

definition config_ok :: "config \<Rightarrow> bool" where
  "config_ok cfg \<longleftrightarrow>
     MAX_CALLOUT_CNT cfg \<le> 16 \<and> MAX_CALLBACK_CNT cfg < 256 \<and> 0 < sizeof_CallbackFn cfg"

text \<open>
  The arrays have their declared lengths, no more entries are counted than the
  callback array holds, and no bit of the map beyond the slots is set.
\<close>

definition state_ok :: "config \<Rightarrow> sched \<Rightarrow> bool" where
  "state_ok cfg s \<longleftrightarrow>
     length (callback_store s) = MAX_CALLBACK_CNT cfg \<and>
     length (callout_store s) = MAX_CALLOUT_CNT cfg \<and>
     unat (event_count s) \<le> MAX_CALLBACK_CNT cfg \<and>
     drop_bit (MAX_CALLOUT_CNT cfg) (callout_map s) = 0"

text \<open>What a handler may leave alone.\<close>

definition keeps_clock :: "behaviour \<Rightarrow> bool" where
  "keeps_clock beh \<longleftrightarrow> (\<forall>h s. now (beh h s) = now s)"

definition keeps_callbacks :: "behaviour \<Rightarrow> bool" where
  "keeps_callbacks beh \<longleftrightarrow>
     (\<forall>h s. event_count (beh h s) = event_count s \<and> callback_store (beh h s) = callback_store s)"

definition keeps_callouts :: "behaviour \<Rightarrow> bool" where
  "keeps_callouts beh \<longleftrightarrow>
     (\<forall>h s. callout_map (beh h s) = callout_map s \<and> callout_store (beh h s) = callout_store s)"

definition inert :: "behaviour \<Rightarrow> bool" where
  "inert beh \<longleftrightarrow> (\<forall>h s. beh h s = s)"

section \<open>A small configuration and two handler behaviours\<close>

text \<open>
  Two callbacks, two callouts, one tick per unit of time. The sizes are those of a
  target with 2-byte function pointers and a 12-byte \<^verbatim>\<open>CallbackEvent\<close>.
\<close>

definition demo :: config where
  "demo = \<lparr>MAX_CALLBACK_CNT = 2, MAX_CALLOUT_CNT = 2, MILLISECOND = 1,
            sizeof_CallbackEvent = 12, sizeof_CallbackFn = 2\<rparr>"

text \<open>Handlers that do not touch the scheduler.\<close>

definition idle :: behaviour where
  "idle h s = s"

text \<open>Handler 1 registers handler 2 as a callout with delay 0; the others do nothing.\<close>

definition rereg :: "config \<Rightarrow> behaviour" where
  "rereg cfg h s = (if h = 1 then snd (CalloutRegister cfg 2 0 s) else s)"


text \<open>
  The same when handler 3 (slot 0) and then handler 1 (slot 1) were registered at
  tick 0, both with delay 1.
\<close>

definition two_pending :: sched where
  "two_pending =
     (snd (CalloutRegister demo 1 1 (snd (CalloutRegister demo 3 1 (init demo)))))\<lparr>now := 1\<rparr>"



text \<open>
  A callback (handler 7, enabled) and a callout (handler 5) that are both due at
  tick 1.
\<close>

definition both_due :: sched where
  "both_due =
     (case CallbackRegister demo 7 2 (init demo) of
        Inl f \<Rightarrow> init demo
      | Inr (r, s) \<Rightarrow> snd (CalloutRegister demo 5 1 (CallbackMode demo 7 True s)))"

section \<open>Notions used in the proofs\<close>

text \<open>
  The test and the body of one iteration of either service loop, and the occupied
  slots from a given index on.
\<close>

definition callback_due :: "32 word \<Rightarrow> nat \<Rightarrow> sched \<Rightarrow> bool" where
  "callback_due ct i s \<longleftrightarrow>
     enabled (callback_store s ! i) \<and> ct = next_run_time (callback_store s ! i)"

definition callback_fire :: "config \<Rightarrow> behaviour \<Rightarrow> 32 word \<Rightarrow> nat \<Rightarrow> sched \<Rightarrow> sched" where
  "callback_fire cfg beh ct i s =
     beh (func (callback_store s ! i))
       (s\<lparr>callback_store := (callback_store s)[i :=
            (callback_store s ! i)\<lparr>next_run_time :=
               ct + run_time (callback_store s ! i) * MILLISECOND cfg\<rparr>]\<rparr>)"

definition callout_due :: "32 word \<Rightarrow> nat \<Rightarrow> sched \<Rightarrow> bool" where
  "callout_due ct i s \<longleftrightarrow>
     callout_map s AND BV i \<noteq> 0 \<and> ct = co_run_time (callout_store s ! i)"

definition callout_fire :: "behaviour \<Rightarrow> nat \<Rightarrow> sched \<Rightarrow> sched" where
  "callout_fire beh i s =
     (let s1 = beh (co_func (callout_store s ! i)) s
      in s1\<lparr>callout_map := callout_map s1 AND NOT (BV i)\<rparr>)"

definition occupied_from :: "config \<Rightarrow> nat \<Rightarrow> sched \<Rightarrow> nat set" where
  "occupied_from cfg i s = {j. i \<le> j \<and> j < MAX_CALLOUT_CNT cfg \<and> bit (callout_map s) j}"

text \<open>
  The slots and the entries that are due in a state, in ascending order, and what a
  pass does to the map and to the callback entries when it services them.
\<close>

definition due_callouts :: "config \<Rightarrow> 32 word \<Rightarrow> nat \<Rightarrow> sched \<Rightarrow> nat list" where
  "due_callouts cfg ct i s = filter (\<lambda>j. callout_due ct j s) [i..<MAX_CALLOUT_CNT cfg]"

definition clear_slots :: "nat list \<Rightarrow> 16 word \<Rightarrow> 16 word" where
  "clear_slots js m = fold (\<lambda>j m'. m' AND NOT (BV j)) js m"

definition due_callbacks :: "32 word \<Rightarrow> nat \<Rightarrow> sched \<Rightarrow> nat list" where
  "due_callbacks ct i s = filter (\<lambda>j. callback_due ct j s) [i..<unat (event_count s)]"

definition reschedule :: "config \<Rightarrow> 32 word \<Rightarrow> nat list \<Rightarrow> CallbackEvent list \<Rightarrow> CallbackEvent list" where
  "reschedule cfg ct js cs =
     fold (\<lambda>j cs'. cs'[j := (cs' ! j)\<lparr>next_run_time := ct + run_time (cs' ! j) * MILLISECOND cfg\<rparr>]) js cs"



function first_match :: "config \<Rightarrow> CalloutFn \<Rightarrow> nat \<Rightarrow> sched \<Rightarrow> nat" where
  "first_match cfg fn i s =
     (if i < MAX_CALLOUT_CNT cfg then
        (if co_func (callout_store s ! i) = fn then i else first_match cfg fn (i + 1) s)
      else i)"
  by pat_completeness auto
termination
  by (relation "measure (\<lambda>(cfg, fn, i, s). MAX_CALLOUT_CNT cfg - i)") auto

declare first_match.simps [simp del]

text \<open>
  The entry found by the scan of \<^verbatim>\<open>CallbackMode\<close>: the first registered one that
  stores the handler, from index \<open>i\<close>; \<^verbatim>\<open>event_count\<close> when there is none.
\<close>

function first_callback :: "CallbackFn \<Rightarrow> nat \<Rightarrow> sched \<Rightarrow> nat" where
  "first_callback fn i s =
     (if i < unat (event_count s) then
        (if fn = func (callback_store s ! i) then i else first_callback fn (i + 1) s)
      else i)"
  by pat_completeness auto
termination
  by (relation "measure (\<lambda>(fn, i, s). unat (event_count s) - i)") auto

declare first_callback.simps [simp del]

text \<open>
  The number of tick interrupts after which the clock has advanced by \<open>w\<close> modulo
  \<open>2 ^ 32\<close>: at least one, so a full turn of the counter when \<open>w\<close> is 0.
\<close>

definition fire_delay :: "32 word \<Rightarrow> nat" where
  "fire_delay w = (if w = 0 then 2 ^ 32 else unat w)"

text \<open>The two passes of one tick interrupt, each with the incremented clock value.\<close>

definition callback_phase :: "config \<Rightarrow> behaviour \<Rightarrow> sched \<Rightarrow> event list \<times> sched" where
  "callback_phase cfg beh s = CallbackService cfg beh (now s + 1) (s\<lparr>now := now s + 1\<rparr>)"

definition callout_phase :: "config \<Rightarrow> behaviour \<Rightarrow> sched \<Rightarrow> event list \<times> sched" where
  "callout_phase cfg beh s =
     CalloutService cfg beh (now s + 1) (snd (callback_phase cfg beh s))"

section \<open>The occupancy map\<close>

subsection \<open>Single bits\<close>

lemma bit_BV: "bit (BV i) j \<longleftrightarrow> j = i \<and> i < 16"
  by (auto simp: BV_def bit_simps)

lemma test_BV: "m AND BV i \<noteq> 0 \<longleftrightarrow> bit m i"
proof
  assume "m AND BV i \<noteq> 0"
  then obtain j where "bit (m AND BV i) j"
    by (auto simp: bit_eq_iff)
  then show "bit m i"
    by (auto simp: bit_and_iff bit_BV)
next
  assume b: "bit m i"
  then have "i < 16"
    using bit_imp_le_length [of m i] by simp
  with b have "bit (m AND BV i) i"
    by (simp add: bit_and_iff bit_BV)
  then show "m AND BV i \<noteq> 0"
    by auto
qed


lemma bit_clear_BV: "bit (m AND NOT (BV i)) j \<longleftrightarrow> bit m j \<and> j \<noteq> i"
  by (auto simp: bit_and_iff bit_not_iff bit_BV dest: bit_imp_le_length)

subsection \<open>The number of set bits\<close>

lemma and_pred_even: "0 < m \<Longrightarrow> (2 * m) AND (2 * m - 1) = 2 * (m AND (m - 1))" for m :: nat
proof -
  assume "0 < m"
  then have "(2 * m - 1) div 2 = m - 1" by arith
  then show ?thesis
    by (subst and_nat_rec) simp
qed

lemma and_pred_odd: "(2 * m + 1) AND (2 * m + 1 - 1) = 2 * m" for m :: nat
  by (subst and_nat_rec) simp

lemma finite_bits_nat: "finite {j. bit n j}" for n :: nat
proof -
  have "{j. bit n j} \<subseteq> {j. j < n}"
  proof
    fix j assume "j \<in> {j. bit n j}"
    then have "2 ^ j \<le> n"
      by (simp add: bit_iff_odd) (metis div_less even_zero not_less)
    then show "j \<in> {j. j < n}"
      using less_le_trans [of j "2 ^ j" n] by simp
  qed
  then show ?thesis
    by (rule finite_subset) simp
qed

lemma bits_double: "{j. bit (2 * m) j} = Suc ` {j. bit m j}" for m :: nat
  by (auto simp: bit_double_iff image_iff gr0_conv_Suc)

lemma bits_double1: "{j. bit (2 * m + 1) j} = insert 0 (Suc ` {j. bit m j})" for m :: nat
proof -
  have "bit (2 * m + 1) j \<longleftrightarrow> j = 0 \<or> (\<exists>k. j = Suc k \<and> bit m k)" for j
    by (cases j) (simp_all add: bit_0 bit_Suc)
  then show ?thesis by auto
qed

lemma card_bits_double: "card {j. bit (2 * m) j} = card {j. bit m j}" for m :: nat
  by (simp add: bits_double card_image)

lemma card_bits_double1: "card {j. bit (2 * m + 1) j} = Suc (card {j. bit m j})" for m :: nat
  unfolding bits_double1 by (simp add: card_image finite_bits_nat)

lemma card_and_pred_nat: "0 < n \<Longrightarrow> Suc (card {j. bit (n AND (n - 1)) j}) = card {j. bit n j}" for n :: nat
proof (induction n rule: less_induct)
  case (less n)
  show ?case
  proof (cases "even n")
    case True
    then obtain m where m: "n = 2 * m" by (auto elim: evenE)
    with less.prems have "0 < m" by simp
    with m less.IH [of m] have "Suc (card {j. bit (m AND (m - 1)) j}) = card {j. bit m j}"
      by simp
    with \<open>0 < m\<close> show ?thesis
      by (simp only: m and_pred_even card_bits_double)
  next
    case False
    then obtain m where m: "n = 2 * m + 1" by (auto elim: oddE)
    show ?thesis
      by (simp only: m and_pred_odd card_bits_double card_bits_double1)
  qed
qed

lemma bits_unat: "{j. bit (unat w) j} = {j. bit w j}" for w :: "'a::len word"
  by (auto simp: bit_unsigned_iff)

lemma card_and_pred_word:
  "w \<noteq> 0 \<Longrightarrow> Suc (card {j. bit (w AND (w - 1)) j}) = card {j. bit w j}" for w :: "'a::len word"
proof -
  assume nz: "w \<noteq> 0"
  then have "unat (w AND (w - 1)) = unat w AND (unat w - 1)"
    by (simp add: unsigned_and_eq unat_minus_one)
  moreover from nz have "0 < unat w"
    by (simp add: unat_gt_0)
  ultimately have "Suc (card {j. bit (unat (w AND (w - 1))) j}) = card {j. bit (unat w) j}"
    using card_and_pred_nat [of "unat w"] by simp
  then show ?thesis
    by (simp only: bits_unat)
qed

lemma card_bits_le: "card {j. bit w j} \<le> 16" for w :: "16 word"
proof -
  have "{j. bit w j} \<subseteq> {j. j < 16}"
    using bit_imp_le_length [of w] by auto
  then have "card {j. bit w j} \<le> card {j. j < (16::nat)}"
    by (intro card_mono) simp_all
  then show ?thesis by simp
qed

lemma map_size_loop_eq: "map_size_loop acc m = acc + of_nat (card {j. bit m j})"
proof (induction acc m rule: map_size_loop.induct)
  case (1 acc m)
  show ?case
  proof (cases "m = 0")
    case True
    then have e: "{j. bit m j} = {}" by auto
    have a: "map_size_loop acc m = acc"
      using True by (subst map_size_loop.simps) simp
    have b: "card {j. bit m j} = 0"
      by (simp only: e card.empty)
    show ?thesis
      by (simp only: a b) simp
  next
    case False
    with 1 have "map_size_loop (acc + 1) (m AND (m - 1)) = acc + 1 + of_nat (card {j. bit (m AND (m - 1)) j})"
      by simp
    moreover from False have "Suc (card {j. bit (m AND (m - 1)) j}) = card {j. bit m j}"
      by (rule card_and_pred_word)
    ultimately show ?thesis
      using False by (subst map_size_loop.simps) (simp flip: of_nat_Suc)
  qed
qed

lemma get_callout_map_size_card: "unat (get_callout_map_size s) = card {j. bit (callout_map s) j}"
proof -
  have lt: "card {j. bit (callout_map s) j} < 2 ^ LENGTH(8)"
    using card_bits_le [of "callout_map s"] by simp
  have "get_callout_map_size s = of_nat (card {j. bit (callout_map s) j})"
    by (simp only: get_callout_map_size_def map_size_loop_eq add_0)
  then have "unat (get_callout_map_size s) = card {j. bit (callout_map s) j} mod 2 ^ LENGTH(8)"
    by (simp only: unat_of_nat)
  with lt show ?thesis
    by (simp only: mod_less)
qed

section \<open>The service passes\<close>

subsection \<open>One iteration of each loop\<close>

lemma CalloutService_loop_done:
  "\<not> i < MAX_CALLOUT_CNT cfg \<Longrightarrow> CalloutService_loop cfg beh ct i rem s = ([], s)"
  by (subst CalloutService_loop.simps) simp

lemma CalloutService_loop_skip:
  "i < MAX_CALLOUT_CNT cfg \<Longrightarrow> \<not> callout_due ct i s \<Longrightarrow>
   CalloutService_loop cfg beh ct i rem s = CalloutService_loop cfg beh ct (i + 1) rem s"
  by (subst CalloutService_loop.simps) (auto simp: callout_due_def)

lemma CalloutService_loop_last:
  "i < MAX_CALLOUT_CNT cfg \<Longrightarrow> callout_due ct i s \<Longrightarrow> rem - 1 = 0 \<Longrightarrow>
   CalloutService_loop cfg beh ct i rem s =
     ([CalloutFired i (co_func (callout_store s ! i))], callout_fire beh i s)"
  by (subst CalloutService_loop.simps) (simp add: callout_due_def callout_fire_def Let_def)

lemma CalloutService_loop_more:
  "i < MAX_CALLOUT_CNT cfg \<Longrightarrow> callout_due ct i s \<Longrightarrow> rem - 1 \<noteq> 0 \<Longrightarrow>
   CalloutService_loop cfg beh ct i rem s =
     (CalloutFired i (co_func (callout_store s ! i)) #
        fst (CalloutService_loop cfg beh ct (i + 1) (rem - 1) (callout_fire beh i s)),
      snd (CalloutService_loop cfg beh ct (i + 1) (rem - 1) (callout_fire beh i s)))"
  by (subst CalloutService_loop.simps)
     (simp add: callout_due_def callout_fire_def Let_def split: prod.splits)

lemma CalloutService_full_loop_done:
  "\<not> i < MAX_CALLOUT_CNT cfg \<Longrightarrow> CalloutService_full_loop cfg beh ct i s = ([], s)"
  by (subst CalloutService_full_loop.simps) simp

lemma CalloutService_full_loop_skip:
  "i < MAX_CALLOUT_CNT cfg \<Longrightarrow> \<not> callout_due ct i s \<Longrightarrow>
   CalloutService_full_loop cfg beh ct i s = CalloutService_full_loop cfg beh ct (i + 1) s"
  by (subst CalloutService_full_loop.simps) (auto simp: callout_due_def)

lemma CalloutService_full_loop_fire:
  "i < MAX_CALLOUT_CNT cfg \<Longrightarrow> callout_due ct i s \<Longrightarrow>
   CalloutService_full_loop cfg beh ct i s =
     (CalloutFired i (co_func (callout_store s ! i)) #
        fst (CalloutService_full_loop cfg beh ct (i + 1) (callout_fire beh i s)),
      snd (CalloutService_full_loop cfg beh ct (i + 1) (callout_fire beh i s)))"
  by (subst CalloutService_full_loop.simps)
     (simp add: callout_due_def callout_fire_def Let_def split: prod.splits)

lemma CallbackService_loop_done:
  "\<not> i < unat (event_count s) \<Longrightarrow> CallbackService_loop cfg beh ct i rem s = ([], s)"
  by (subst CallbackService_loop.simps) simp

lemma CallbackService_loop_skip:
  "i < unat (event_count s) \<Longrightarrow> \<not> callback_due ct i s \<Longrightarrow>
   CallbackService_loop cfg beh ct i rem s = CallbackService_loop cfg beh ct (i + 1) rem s"
  by (subst CallbackService_loop.simps) (auto simp: callback_due_def)

lemma CallbackService_loop_last:
  "i < unat (event_count s) \<Longrightarrow> callback_due ct i s \<Longrightarrow> rem - 1 = 0 \<Longrightarrow>
   CallbackService_loop cfg beh ct i rem s =
     ([CallbackFired i (func (callback_store s ! i))], callback_fire cfg beh ct i s)"
  by (subst CallbackService_loop.simps) (simp add: callback_due_def callback_fire_def Let_def)

lemma CallbackService_loop_more:
  "i < unat (event_count s) \<Longrightarrow> callback_due ct i s \<Longrightarrow> rem - 1 \<noteq> 0 \<Longrightarrow>
   CallbackService_loop cfg beh ct i rem s =
     (CallbackFired i (func (callback_store s ! i)) #
        fst (CallbackService_loop cfg beh ct (i + 1) (rem - 1) (callback_fire cfg beh ct i s)),
      snd (CallbackService_loop cfg beh ct (i + 1) (rem - 1) (callback_fire cfg beh ct i s)))"
  by (subst CallbackService_loop.simps)
     (simp add: callback_due_def callback_fire_def Let_def split: prod.splits)

lemma CallbackService_full_loop_done:
  "\<not> i < unat (event_count s) \<Longrightarrow> CallbackService_full_loop cfg beh ct i s = ([], s)"
  by (subst CallbackService_full_loop.simps) simp

lemma CallbackService_full_loop_skip:
  "i < unat (event_count s) \<Longrightarrow> \<not> callback_due ct i s \<Longrightarrow>
   CallbackService_full_loop cfg beh ct i s = CallbackService_full_loop cfg beh ct (i + 1) s"
  by (subst CallbackService_full_loop.simps) (auto simp: callback_due_def)

lemma CallbackService_full_loop_fire:
  "i < unat (event_count s) \<Longrightarrow> callback_due ct i s \<Longrightarrow>
   CallbackService_full_loop cfg beh ct i s =
     (CallbackFired i (func (callback_store s ! i)) #
        fst (CallbackService_full_loop cfg beh ct (i + 1) (callback_fire cfg beh ct i s)),
      snd (CallbackService_full_loop cfg beh ct (i + 1) (callback_fire cfg beh ct i s)))"
  by (subst CallbackService_full_loop.simps)
     (simp add: callback_due_def callback_fire_def Let_def split: prod.splits)

subsection \<open>Induction over the iterations\<close>

lemma CalloutService_loop_cases [case_names out skip last more]:
  assumes "\<And>i rem s. \<not> i < MAX_CALLOUT_CNT cfg \<Longrightarrow> P i rem s"
    and "\<And>i rem s. i < MAX_CALLOUT_CNT cfg \<Longrightarrow> \<not> callout_due ct i s \<Longrightarrow>
           P (i + 1) rem s \<Longrightarrow> P i rem s"
    and "\<And>i rem s. i < MAX_CALLOUT_CNT cfg \<Longrightarrow> callout_due ct i s \<Longrightarrow> rem - 1 = 0 \<Longrightarrow>
           P i rem s"
    and "\<And>i rem s. i < MAX_CALLOUT_CNT cfg \<Longrightarrow> callout_due ct i s \<Longrightarrow> rem - 1 \<noteq> 0 \<Longrightarrow>
           P (i + 1) (rem - 1) (callout_fire beh i s) \<Longrightarrow> P i rem s"
  shows "P i (rem :: 8 word) s"
proof (induction "MAX_CALLOUT_CNT cfg - i" arbitrary: i rem s)
  case 0
  then show ?case by (intro assms(1)) simp
next
  case (Suc k i rem s)
  then have inr: "i < MAX_CALLOUT_CNT cfg" and k: "k = MAX_CALLOUT_CNT cfg - (i + 1)"
    by simp_all
  show ?case
  proof (cases "callout_due ct i s")
    case False
    have "P (i + 1) rem s"
      by (rule Suc(1) [OF k])
    with inr False show ?thesis by (rule assms(2))
  next
    case due: True
    show ?thesis
    proof (cases "rem - 1 = 0")
      case True
      with inr due show ?thesis by (rule assms(3))
    next
      case False
      have "P (i + 1) (rem - 1) (callout_fire beh i s)"
        by (rule Suc(1) [OF k])
      with inr due False show ?thesis by (rule assms(4))
    qed
  qed
qed

lemma CallbackService_loop_cases [case_names out skip last more]:
  assumes "\<And>i rem s. \<not> i < unat (event_count s) \<Longrightarrow> P i rem s"
    and "\<And>i rem s. i < unat (event_count s) \<Longrightarrow> \<not> callback_due ct i s \<Longrightarrow>
           P (i + 1) rem s \<Longrightarrow> P i rem s"
    and "\<And>i rem s. i < unat (event_count s) \<Longrightarrow> callback_due ct i s \<Longrightarrow> rem - 1 = 0 \<Longrightarrow>
           P i rem s"
    and "\<And>i rem s. i < unat (event_count s) \<Longrightarrow> callback_due ct i s \<Longrightarrow> rem - 1 \<noteq> 0 \<Longrightarrow>
           P (i + 1) (rem - 1) (callback_fire cfg beh ct i s) \<Longrightarrow> P i rem s"
  shows "P i (rem :: 8 word) s"
proof (induction "unat (rem - 1)" arbitrary: i rem s rule: less_induct)
  case (less rem i s)
  show ?case
  proof (induction "unat (event_count s) - i" arbitrary: i)
    case 0
    then show ?case by (intro assms(1)) simp
  next
    case (Suc k i)
    then have inr: "i < unat (event_count s)" and k: "k = unat (event_count s) - (i + 1)"
      by simp_all
    show ?case
    proof (cases "callback_due ct i s")
      case False
      have "P (i + 1) rem s"
        by (rule Suc(1) [OF k])
      with inr False show ?thesis by (rule assms(2))
    next
      case due: True
      show ?thesis
      proof (cases "rem - 1 = 0")
        case True
        with inr due show ?thesis by (rule assms(3))
      next
        case False
        then have "unat (rem - 1 - 1) < unat (rem - 1)"
          using unat_minus_one [of "rem - 1"] unat_gt_0 [of "rem - 1"] by arith
        then have "P (i + 1) (rem - 1) (callback_fire cfg beh ct i s)"
          by (rule less)
        with inr due False show ?thesis by (rule assms(4))
      qed
    qed
  qed
qed

subsection \<open>Slots are visited in ascending order\<close>

lemma CalloutService_loop_ascending:
  "sorted_wrt (<) (map index_of (fst (CalloutService_loop cfg beh ct i rem s))) \<and>
   (\<forall>e \<in> set (fst (CalloutService_loop cfg beh ct i rem s)). i \<le> index_of e)"
proof (induction i rem s rule: CalloutService_loop_cases [where cfg = cfg and ct = ct and beh = beh])
  case (out i rem s)
  then show ?case by (simp add: CalloutService_loop_done)
next
  case (skip i rem s)
  then show ?case by (auto simp: CalloutService_loop_skip)
next
  case (last i rem s)
  then show ?case by (simp add: CalloutService_loop_last)
next
  case (more i rem s)
  then show ?case by (auto simp: CalloutService_loop_more)
qed

subsection \<open>The clock during the service passes\<close>

lemma now_callout_fire: "keeps_clock beh \<Longrightarrow> now (callout_fire beh i s) = now s"
  by (simp add: callout_fire_def keeps_clock_def Let_def)

lemma now_callback_fire: "keeps_clock beh \<Longrightarrow> now (callback_fire cfg beh ct i s) = now s"
  by (simp add: callback_fire_def keeps_clock_def)

lemma CalloutService_loop_now:
  "keeps_clock beh \<Longrightarrow> now (snd (CalloutService_loop cfg beh ct i rem s)) = now s"
proof (induction i rem s rule: CalloutService_loop_cases [where cfg = cfg and ct = ct and beh = beh])
  case (out i rem s)
  then show ?case by (simp add: CalloutService_loop_done)
next
  case (skip i rem s)
  then show ?case by (simp add: CalloutService_loop_skip)
next
  case (last i rem s)
  then show ?case by (simp add: CalloutService_loop_last now_callout_fire)
next
  case (more i rem s)
  then show ?case by (simp add: CalloutService_loop_more now_callout_fire)
qed

lemma CallbackService_loop_now:
  "keeps_clock beh \<Longrightarrow> now (snd (CallbackService_loop cfg beh ct i rem s)) = now s"
proof (induction i rem s rule: CallbackService_loop_cases [where cfg = cfg and ct = ct and beh = beh])
  case (out i rem s)
  then show ?case by (simp add: CallbackService_loop_done)
next
  case (skip i rem s)
  then show ?case by (simp add: CallbackService_loop_skip)
next
  case (last i rem s)
  then show ?case by (simp add: CallbackService_loop_last now_callback_fire)
next
  case (more i rem s)
  then show ?case by (simp add: CallbackService_loop_more now_callback_fire)
qed

lemma CallbackService_now:
  "keeps_clock beh \<Longrightarrow> now (snd (CallbackService cfg beh ct s)) = now s"
  by (simp add: CallbackService_def CallbackService_loop_now)

lemma CalloutService_now:
  "keeps_clock beh \<Longrightarrow> now (snd (CalloutService cfg beh ct s)) = now s"
  by (simp add: CalloutService_def CalloutService_loop_now)

lemma ScheduleTimerOverflow_unfold:
  "ScheduleTimerOverflow cfg beh s =
     (fst (CallbackService cfg beh (now s + 1) (s\<lparr>now := now s + 1\<rparr>)) @
      fst (CalloutService cfg beh
             (now (snd (CallbackService cfg beh (now s + 1) (s\<lparr>now := now s + 1\<rparr>))))
             (snd (CallbackService cfg beh (now s + 1) (s\<lparr>now := now s + 1\<rparr>)))),
      snd (CalloutService cfg beh
             (now (snd (CallbackService cfg beh (now s + 1) (s\<lparr>now := now s + 1\<rparr>))))
             (snd (CallbackService cfg beh (now s + 1) (s\<lparr>now := now s + 1\<rparr>)))))"
  by (simp add: ScheduleTimerOverflow_def Let_def split: prod.splits)

lemma ScheduleTimerOverflow_now:
  "keeps_clock beh \<Longrightarrow> now (snd (ScheduleTimerOverflow cfg beh s)) = now s + 1"
  by (simp add: ScheduleTimerOverflow_unfold CalloutService_now CallbackService_now)

lemma ticks_now:
  "keeps_clock beh \<Longrightarrow> now (ticks cfg beh n s) = now s + of_nat n"
  by (induction n) (simp_all add: ScheduleTimerOverflow_now)

subsection \<open>The early exit against the unconditional scan\<close>

lemma finite_occupied_from: "finite (occupied_from cfg i s)"
  by (simp add: occupied_from_def)

lemma occupied_from_Suc:
  "occupied_from cfg (Suc i) s = occupied_from cfg i s - {i}"
  by (auto simp: occupied_from_def)

lemma callout_due_occupied:
  "i < MAX_CALLOUT_CNT cfg \<Longrightarrow> callout_due ct i s \<Longrightarrow> i \<in> occupied_from cfg i s"
  by (simp add: callout_due_def occupied_from_def test_BV)

lemma callout_map_fire:
  "keeps_callouts beh \<Longrightarrow>
   callout_map (callout_fire beh i s) = callout_map s AND NOT (BV i)"
  by (simp add: callout_fire_def keeps_callouts_def Let_def)

lemma callout_store_fire:
  "keeps_callouts beh \<Longrightarrow> callout_store (callout_fire beh i s) = callout_store s"
  by (simp add: callout_fire_def keeps_callouts_def Let_def)

lemma occupied_from_fire:
  "keeps_callouts beh \<Longrightarrow>
   occupied_from cfg (Suc i) (callout_fire beh i s) = occupied_from cfg i s - {i}"
  by (auto simp: occupied_from_def callout_map_fire bit_clear_BV)

lemma CalloutService_full_loop_vacant:
  "occupied_from cfg i s = {} \<Longrightarrow> CalloutService_full_loop cfg beh ct i s = ([], s)"
proof (induction "MAX_CALLOUT_CNT cfg - i" arbitrary: i)
  case 0
  then show ?case by (simp add: CalloutService_full_loop_done)
next
  case (Suc k i)
  then have inr: "i < MAX_CALLOUT_CNT cfg" and k: "k = MAX_CALLOUT_CNT cfg - (i + 1)"
    by simp_all
  from Suc.prems inr have "\<not> bit (callout_map s) i"
    by (auto simp: occupied_from_def)
  then have nd: "\<not> callout_due ct i s"
    by (simp add: callout_due_def test_BV)
  from Suc.prems have "occupied_from cfg (i + 1) s = {}"
    by (simp add: occupied_from_Suc)
  then have "CalloutService_full_loop cfg beh ct (i + 1) s = ([], s)"
    by (rule Suc(1) [OF k])
  with inr nd show ?case
    by (simp add: CalloutService_full_loop_skip)
qed

lemma unat_pred: "r \<noteq> 0 \<Longrightarrow> unat (r - 1) = unat r - 1" for r :: "8 word"
  by (rule unat_minus_one)

lemma CalloutService_loop_eq_full:
  assumes "keeps_callouts beh"
  shows "card (occupied_from cfg i s) \<le> unat rem \<Longrightarrow> rem \<noteq> 0 \<Longrightarrow>
         CalloutService_loop cfg beh ct i rem s = CalloutService_full_loop cfg beh ct i s"
proof (induction i rem s rule: CalloutService_loop_cases [where cfg = cfg and ct = ct and beh = beh])
  case (out i rem s)
  then show ?case
    by (simp add: CalloutService_loop_done CalloutService_full_loop_done)
next
  case (skip i rem s)
  have "card (occupied_from cfg (i + 1) s) \<le> card (occupied_from cfg i s)"
    by (intro card_mono finite_occupied_from) (auto simp: occupied_from_def)
  with skip show ?case
    by (simp add: CalloutService_loop_skip CalloutService_full_loop_skip)
next
  case (last i rem s)
  from last(1,2) have mem: "i \<in> occupied_from cfg i s"
    by (rule callout_due_occupied)
  from last(3) have "rem = 1" by simp
  with last(4) have "card (occupied_from cfg i s) \<le> 1" by simp
  moreover from mem have "card (occupied_from cfg i s - {i}) = card (occupied_from cfg i s) - 1"
    by (simp add: finite_occupied_from)
  ultimately have "card (occupied_from cfg i s - {i}) = 0"
    by simp
  then have "occupied_from cfg i s - {i} = {}"
    by (simp add: finite_occupied_from)
  then have "occupied_from cfg (i + 1) (callout_fire beh i s) = {}"
    by (simp add: occupied_from_fire [OF assms])
  then have "CalloutService_full_loop cfg beh ct (i + 1) (callout_fire beh i s) = ([], callout_fire beh i s)"
    by (rule CalloutService_full_loop_vacant)
  with last(1,2,3) show ?case
    by (simp add: CalloutService_loop_last CalloutService_full_loop_fire)
next
  case (more i rem s)
  from more(1,2) have mem: "i \<in> occupied_from cfg i s"
    by (rule callout_due_occupied)
  then have "card (occupied_from cfg (i + 1) (callout_fire beh i s)) = card (occupied_from cfg i s) - 1"
    by (simp add: occupied_from_fire [OF assms] finite_occupied_from)
  moreover have "unat (rem - 1) = unat rem - 1"
    using more.prems(2) by (rule unat_pred)
  ultimately have "card (occupied_from cfg (i + 1) (callout_fire beh i s)) \<le> unat (rem - 1)"
    using more.prems(1) by simp
  with more.IH more(3) have "CalloutService_loop cfg beh ct (i + 1) (rem - 1) (callout_fire beh i s) =
      CalloutService_full_loop cfg beh ct (i + 1) (callout_fire beh i s)"
    by simp
  with more(1,2,3) show ?case
    by (simp add: CalloutService_loop_more CalloutService_full_loop_fire)
qed

lemma occupied_from_card_le_size:
  "card (occupied_from cfg i s) \<le> unat (get_callout_map_size s)"
proof -
  have "occupied_from cfg i s \<subseteq> {j. bit (callout_map s) j}"
    by (auto simp: occupied_from_def)
  then have "card (occupied_from cfg i s) \<le> card {j. bit (callout_map s) j}"
    by (intro card_mono) simp_all
  then show ?thesis
    by (simp only: get_callout_map_size_card)
qed

lemma CalloutService_eq_full:
  assumes "keeps_callouts beh"
  shows "CalloutService cfg beh ct s = CalloutService_full cfg beh ct s"
proof (cases "get_callout_map_size s = 0")
  case True
  then have "card (occupied_from cfg 0 s) = 0"
    using occupied_from_card_le_size [of cfg 0 s] by simp
  then have "occupied_from cfg 0 s = {}"
    by (simp add: finite_occupied_from)
  then have "CalloutService_full_loop cfg beh ct 0 s = ([], s)"
    by (rule CalloutService_full_loop_vacant)
  with True show ?thesis
    by (simp add: CalloutService_def CalloutService_full_def)
next
  case False
  with CalloutService_loop_eq_full [OF assms occupied_from_card_le_size False] show ?thesis
    by (simp add: CalloutService_def CalloutService_full_def)
qed

lemma event_count_callback_fire:
  "keeps_callbacks beh \<Longrightarrow> event_count (callback_fire cfg beh ct i s) = event_count s"
  by (simp add: callback_fire_def keeps_callbacks_def)

lemma CallbackService_loop_eq_full:
  assumes "keeps_callbacks beh"
  shows "unat (event_count s) - i \<le> unat rem \<Longrightarrow> rem \<noteq> 0 \<Longrightarrow>
         CallbackService_loop cfg beh ct i rem s = CallbackService_full_loop cfg beh ct i s"
proof (induction i rem s rule: CallbackService_loop_cases [where cfg = cfg and ct = ct and beh = beh])
  case (out i rem s)
  then show ?case
    by (simp add: CallbackService_loop_done CallbackService_full_loop_done)
next
  case (skip i rem s)
  then show ?case
    by (simp add: CallbackService_loop_skip CallbackService_full_loop_skip)
next
  case (last i rem s)
  from last(3) have "rem = 1" by simp
  with last(4) last(1) have "\<not> i + 1 < unat (event_count (callback_fire cfg beh ct i s))"
    by (simp add: event_count_callback_fire [OF assms])
  then have "CallbackService_full_loop cfg beh ct (i + 1) (callback_fire cfg beh ct i s) =
      ([], callback_fire cfg beh ct i s)"
    by (rule CallbackService_full_loop_done)
  with last(1,2,3) show ?case
    by (simp add: CallbackService_loop_last CallbackService_full_loop_fire)
next
  case (more i rem s)
  have "unat (rem - 1) = unat rem - 1"
    using more.prems(2) by (rule unat_pred)
  with more.prems(1) have "unat (event_count (callback_fire cfg beh ct i s)) - (i + 1) \<le> unat (rem - 1)"
    by (simp add: event_count_callback_fire [OF assms])
  with more.IH more(3) have "CallbackService_loop cfg beh ct (i + 1) (rem - 1) (callback_fire cfg beh ct i s) =
      CallbackService_full_loop cfg beh ct (i + 1) (callback_fire cfg beh ct i s)"
    by simp
  with more(1,2,3) show ?case
    by (simp add: CallbackService_loop_more CallbackService_full_loop_fire)
qed

lemma CallbackService_eq_full:
  assumes "keeps_callbacks beh"
  shows "CallbackService cfg beh ct s = CallbackService_full cfg beh ct s"
proof (cases "event_count s = 0")
  case True
  then show ?thesis
    by (simp add: CallbackService_def CallbackService_full_def CallbackService_full_loop_done)
next
  case False
  with CallbackService_loop_eq_full [OF assms _ False, of s 0 cfg ct] show ?thesis
    by (simp add: CallbackService_def CallbackService_full_def)
qed

subsection \<open>A pass with handlers that do not touch the scheduler\<close>

lemma inert_keeps:
  "inert beh \<Longrightarrow> keeps_clock beh \<and> keeps_callbacks beh \<and> keeps_callouts beh"
  by (simp add: inert_def keeps_clock_def keeps_callbacks_def keeps_callouts_def)

lemma callout_fire_inert:
  "inert beh \<Longrightarrow> callout_fire beh i s = s\<lparr>callout_map := callout_map s AND NOT (BV i)\<rparr>"
  by (simp add: callout_fire_def inert_def Let_def)

lemma callout_due_bit:
  "callout_due ct j s \<longleftrightarrow> bit (callout_map s) j \<and> ct = co_run_time (callout_store s ! j)"
  by (simp add: callout_due_def test_BV)

lemma callout_due_cleared:
  "callout_due ct j (s\<lparr>callout_map := callout_map s AND NOT (BV i)\<rparr>) \<longleftrightarrow>
   callout_due ct j s \<and> j \<noteq> i"
  by (auto simp: callout_due_bit bit_clear_BV)

lemma due_callouts_cleared:
  "due_callouts cfg ct (Suc i) (s\<lparr>callout_map := callout_map s AND NOT (BV i)\<rparr>) =
   due_callouts cfg ct (Suc i) s"
  unfolding due_callouts_def
  by (rule filter_cong) (auto simp: callout_due_cleared)

lemma due_callouts_out:
  "\<not> i < MAX_CALLOUT_CNT cfg \<Longrightarrow> due_callouts cfg ct i s = []"
  by (simp add: due_callouts_def)

lemma due_callouts_step:
  "i < MAX_CALLOUT_CNT cfg \<Longrightarrow>
   due_callouts cfg ct i s =
     (if callout_due ct i s then i # due_callouts cfg ct (Suc i) s
      else due_callouts cfg ct (Suc i) s)"
  by (simp add: due_callouts_def upt_conv_Cons)

lemma bit_clear_slots:
  "bit (clear_slots js m) k \<longleftrightarrow> bit m k \<and> k \<notin> set js"
  unfolding clear_slots_def
  by (induction js arbitrary: m) (auto simp: bit_clear_BV)

lemma CalloutService_full_loop_inert:
  assumes "inert beh"
  shows "CalloutService_full_loop cfg beh ct i s =
           (map (\<lambda>j. CalloutFired j (co_func (callout_store s ! j))) (due_callouts cfg ct i s),
            s\<lparr>callout_map := clear_slots (due_callouts cfg ct i s) (callout_map s)\<rparr>)"
proof (induction "MAX_CALLOUT_CNT cfg - i" arbitrary: i s)
  case 0
  then show ?case
    by (simp add: CalloutService_full_loop_done due_callouts_out clear_slots_def)
next
  case (Suc k i s)
  then have inr: "i < MAX_CALLOUT_CNT cfg" and k: "k = MAX_CALLOUT_CNT cfg - (i + 1)"
    by simp_all
  show ?case
  proof (cases "callout_due ct i s")
    case False
    with inr Suc(1) [OF k, of s] show ?thesis
      by (simp add: CalloutService_full_loop_skip due_callouts_step)
  next
    case True
    let ?s2 = "s\<lparr>callout_map := callout_map s AND NOT (BV i)\<rparr>"
    have "CalloutService_full_loop cfg beh ct (i + 1) ?s2 =
           (map (\<lambda>j. CalloutFired j (co_func (callout_store ?s2 ! j))) (due_callouts cfg ct (i + 1) ?s2),
            ?s2\<lparr>callout_map := clear_slots (due_callouts cfg ct (i + 1) ?s2) (callout_map ?s2)\<rparr>)"
      by (rule Suc(1) [OF k])
    with inr True show ?thesis
      by (simp add: CalloutService_full_loop_fire callout_fire_inert [OF assms]
          due_callouts_step [of i] due_callouts_cleared clear_slots_def)
  qed
qed

lemma CalloutService_inert:
  assumes "inert beh"
  shows "CalloutService cfg beh ct s =
           (map (\<lambda>j. CalloutFired j (co_func (callout_store s ! j))) (due_callouts cfg ct 0 s),
            s\<lparr>callout_map := clear_slots (due_callouts cfg ct 0 s) (callout_map s)\<rparr>)"
proof -
  from assms have "keeps_callouts beh"
    by (simp add: inert_keeps)
  then have "CalloutService cfg beh ct s = CalloutService_full_loop cfg beh ct 0 s"
    by (simp add: CalloutService_eq_full CalloutService_full_def)
  then show ?thesis
    by (simp only: CalloutService_full_loop_inert [OF assms])
qed

lemma set_due_callouts:
  "set (due_callouts cfg ct i s) = {j. i \<le> j \<and> j < MAX_CALLOUT_CNT cfg \<and> callout_due ct j s}"
  by (auto simp: due_callouts_def)

lemma callback_fire_inert:
  "inert beh \<Longrightarrow>
   callback_fire cfg beh ct i s =
     s\<lparr>callback_store := (callback_store s)[i :=
          (callback_store s ! i)\<lparr>next_run_time :=
             ct + run_time (callback_store s ! i) * MILLISECOND cfg\<rparr>]\<rparr>"
  by (simp add: callback_fire_def inert_def)

lemma callback_due_updated:
  "j \<noteq> i \<Longrightarrow> callback_due ct j (s\<lparr>callback_store := (callback_store s)[i := e]\<rparr>) \<longleftrightarrow>
   callback_due ct j s"
  by (simp add: callback_due_def)

lemma due_callbacks_updated:
  "due_callbacks ct (Suc i) (s\<lparr>callback_store := (callback_store s)[i := e]\<rparr>) =
   due_callbacks ct (Suc i) s"
  unfolding due_callbacks_def
  by (rule filter_cong) (auto simp: callback_due_updated)

lemma due_callbacks_out:
  "\<not> i < unat (event_count s) \<Longrightarrow> due_callbacks ct i s = []"
  by (simp add: due_callbacks_def)

lemma due_callbacks_step:
  "i < unat (event_count s) \<Longrightarrow>
   due_callbacks ct i s =
     (if callback_due ct i s then i # due_callbacks ct (Suc i) s
      else due_callbacks ct (Suc i) s)"
  by (simp add: due_callbacks_def upt_conv_Cons)

lemma set_due_callbacks:
  "set (due_callbacks ct i s) = {j. i \<le> j \<and> j < unat (event_count s) \<and> callback_due ct j s}"
  by (auto simp: due_callbacks_def)

lemma map_func_updated:
  "map (\<lambda>j. CallbackFired j (func ((callback_store s)[i := e] ! j))) (due_callbacks ct (Suc i) s) =
   map (\<lambda>j. CallbackFired j (func (callback_store s ! j))) (due_callbacks ct (Suc i) s)"
  by (rule map_cong) (auto simp: set_due_callbacks)

lemma CallbackService_full_loop_inert:
  assumes "inert beh"
  shows "CallbackService_full_loop cfg beh ct i s =
           (map (\<lambda>j. CallbackFired j (func (callback_store s ! j))) (due_callbacks ct i s),
            s\<lparr>callback_store := reschedule cfg ct (due_callbacks ct i s) (callback_store s)\<rparr>)"
proof (induction "unat (event_count s) - i" arbitrary: i s)
  case 0
  then show ?case
    by (simp add: CallbackService_full_loop_done due_callbacks_out reschedule_def)
next
  case (Suc k i s)
  then have inr: "i < unat (event_count s)" and k: "k = unat (event_count s) - (i + 1)"
    by simp_all
  show ?case
  proof (cases "callback_due ct i s")
    case False
    with inr Suc(1) [OF k] show ?thesis
      by (simp add: CallbackService_full_loop_skip due_callbacks_step)
  next
    case True
    let ?e = "(callback_store s ! i)\<lparr>next_run_time :=
                ct + run_time (callback_store s ! i) * MILLISECOND cfg\<rparr>"
    let ?s2 = "s\<lparr>callback_store := (callback_store s)[i := ?e]\<rparr>"
    have k2: "k = unat (event_count ?s2) - (i + 1)"
      using k by simp
    have "CallbackService_full_loop cfg beh ct (i + 1) ?s2 =
           (map (\<lambda>j. CallbackFired j (func (callback_store ?s2 ! j))) (due_callbacks ct (i + 1) ?s2),
            ?s2\<lparr>callback_store := reschedule cfg ct (due_callbacks ct (i + 1) ?s2) (callback_store ?s2)\<rparr>)"
      by (rule Suc(1) [OF k2])
    with inr True show ?thesis
      by (simp add: CallbackService_full_loop_fire callback_fire_inert [OF assms]
          due_callbacks_step [of i] due_callbacks_updated map_func_updated reschedule_def)
  qed
qed

lemma CallbackService_inert:
  assumes "inert beh"
  shows "CallbackService cfg beh ct s =
           (map (\<lambda>j. CallbackFired j (func (callback_store s ! j))) (due_callbacks ct 0 s),
            s\<lparr>callback_store := reschedule cfg ct (due_callbacks ct 0 s) (callback_store s)\<rparr>)"
proof -
  from assms have "keeps_callbacks beh"
    by (simp add: inert_keeps)
  then have "CallbackService cfg beh ct s = CallbackService_full_loop cfg beh ct 0 s"
    by (simp add: CallbackService_eq_full CallbackService_full_def)
  then show ?thesis
    by (simp only: CallbackService_full_loop_inert [OF assms])
qed

subsection \<open>The events of each pass\<close>

lemma CallbackService_loop_events:
  "list_all is_callback (fst (CallbackService_loop cfg beh ct i rem s))"
proof (induction i rem s rule: CallbackService_loop_cases [where cfg = cfg and ct = ct and beh = beh])
  case (out i rem s)
  then show ?case by (simp add: CallbackService_loop_done)
next
  case (skip i rem s)
  then show ?case by (simp add: CallbackService_loop_skip)
next
  case (last i rem s)
  then show ?case by (simp add: CallbackService_loop_last)
next
  case (more i rem s)
  then show ?case by (simp add: CallbackService_loop_more)
qed

lemma CalloutService_loop_events:
  "list_all (\<lambda>e. \<not> is_callback e) (fst (CalloutService_loop cfg beh ct i rem s))"
proof (induction i rem s rule: CalloutService_loop_cases [where cfg = cfg and ct = ct and beh = beh])
  case (out i rem s)
  then show ?case by (simp add: CalloutService_loop_done)
next
  case (skip i rem s)
  then show ?case by (simp add: CalloutService_loop_skip)
next
  case (last i rem s)
  then show ?case by (simp add: CalloutService_loop_last)
next
  case (more i rem s)
  then show ?case by (simp add: CalloutService_loop_more)
qed

lemma CallbackService_events: "list_all is_callback (fst (CallbackService cfg beh ct s))"
  by (simp add: CallbackService_def CallbackService_loop_events)

lemma CalloutService_events:
  "list_all (\<lambda>e. \<not> is_callback e) (fst (CalloutService cfg beh ct s))"
  by (simp add: CalloutService_def CalloutService_loop_events)

section \<open>Registering, cancelling and firing callouts\<close>

subsection \<open>Registering a callout\<close>










subsection \<open>A tick interrupt with handlers that do not touch the scheduler\<close>

lemma due_callbacks_now [simp]:
  "due_callbacks ct i (s\<lparr>now := t\<rparr>) = due_callbacks ct i s"
  by (simp add: due_callbacks_def callback_due_def)

lemma due_callouts_frame [simp]:
  "due_callouts cfg ct i (s\<lparr>now := t, callback_store := cs\<rparr>) = due_callouts cfg ct i s"
  by (simp add: due_callouts_def callout_due_def)

lemma ScheduleTimerOverflow_inert:
  assumes "inert beh"
  shows "ScheduleTimerOverflow cfg beh s =
     (map (\<lambda>j. CallbackFired j (func (callback_store s ! j))) (due_callbacks (now s + 1) 0 s) @
      map (\<lambda>j. CalloutFired j (co_func (callout_store s ! j))) (due_callouts cfg (now s + 1) 0 s),
      s\<lparr>now := now s + 1,
        callback_store := reschedule cfg (now s + 1) (due_callbacks (now s + 1) 0 s) (callback_store s),
        callout_map := clear_slots (due_callouts cfg (now s + 1) 0 s) (callout_map s)\<rparr>)"
  by (simp add: ScheduleTimerOverflow_unfold CallbackService_inert [OF assms]
      CalloutService_inert [OF assms])






subsection \<open>The tick at which a delay elapses\<close>

lemma fire_delay_pos: "0 < fire_delay w"
  by (simp add: fire_delay_def unat_gt_0)

lemma fire_delay_le: "fire_delay w \<le> 2 ^ 32"
  using unsigned_less [of w, where ?'a = nat] by (simp add: fire_delay_def)

lemma of_nat_fire_delay: "(of_nat (fire_delay w) :: 32 word) = w"
  by (simp add: fire_delay_def)

lemma of_nat_before_fire_delay:
  assumes "0 < m" and "m < fire_delay w"
  shows "(of_nat m :: 32 word) \<noteq> w"
proof
  assume eq: "(of_nat m :: 32 word) = w"
  from assms(2) fire_delay_le [of w] have lt: "m < 2 ^ 32" by simp
  then have "unat (of_nat m :: 32 word) = m"
    by (simp add: unat_of_nat)
  with eq have m: "unat w = m" by simp
  with assms(1) have "w \<noteq> 0" by auto
  with m assms(2) show False
    by (simp add: fire_delay_def)
qed

subsection \<open>The life of one callout\<close>




subsection \<open>Cancelling\<close>

lemma CalloutCancel_loop_eq:
  "CalloutCancel_loop cfg fn i s =
     (if first_match cfg fn i s < MAX_CALLOUT_CNT cfg
      then s\<lparr>callout_map := callout_map s AND NOT (BV (first_match cfg fn i s))\<rparr>
      else s)"
proof (induction "MAX_CALLOUT_CNT cfg - i" arbitrary: i)
  case 0
  then show ?case
    by (subst CalloutCancel_loop.simps, subst (1 2) first_match.simps) simp
next
  case (Suc k i)
  then have inr: "i < MAX_CALLOUT_CNT cfg" and k: "k = MAX_CALLOUT_CNT cfg - (i + 1)"
    by simp_all
  show ?case
  proof (cases "co_func (callout_store s ! i) = fn")
    case True
    with inr have "first_match cfg fn i s = i"
      by (subst first_match.simps) simp
    with True inr show ?thesis
      by (subst CalloutCancel_loop.simps) simp
  next
    case False
    with inr have "first_match cfg fn i s = first_match cfg fn (i + 1) s"
      by (subst first_match.simps) simp
    moreover from False inr have "CalloutCancel_loop cfg fn i s = CalloutCancel_loop cfg fn (i + 1) s"
      by (subst CalloutCancel_loop.simps) simp
    ultimately show ?thesis
      using Suc(1) [OF k] by simp
  qed
qed

subsection \<open>The invariant of the state\<close>

lemma length_reschedule: "length (reschedule cfg ct js cs) = length cs"
  unfolding reschedule_def by (induction js arbitrary: cs) simp_all




lemma state_ok_init: "config_ok cfg \<Longrightarrow> state_ok cfg (init cfg)"
  by (simp add: state_ok_def init_def)



section \<open>Registering and switching callbacks\<close>

lemma callback_bound_exceeds:
  assumes "0 < sizeof_CallbackFn cfg"
    and "2 * sizeof_CallbackFn cfg \<le> sizeof_CallbackEvent cfg"
    and "0 < MAX_CALLBACK_CNT cfg"
  shows "MAX_CALLBACK_CNT cfg < callback_bound cfg"
proof -
  have "MAX_CALLBACK_CNT cfg * (2 * sizeof_CallbackFn cfg) \<le>
        MAX_CALLBACK_CNT cfg * sizeof_CallbackEvent cfg"
    using assms(2) by (rule mult_le_mono2)
  then have "(2 * MAX_CALLBACK_CNT cfg) * sizeof_CallbackFn cfg div sizeof_CallbackFn cfg \<le>
        callback_bound cfg"
    unfolding callback_bound_def by (intro div_le_mono) (simp add: ac_simps)
  with assms(1,3) show ?thesis by simp
qed

lemma CallbackRegister_overrun:
  assumes "0 < sizeof_CallbackFn cfg"
    and "2 * sizeof_CallbackFn cfg \<le> sizeof_CallbackEvent cfg"
    and "0 < MAX_CALLBACK_CNT cfg"
    and "unat (event_count s) = MAX_CALLBACK_CNT cfg"
  shows "CallbackRegister cfg fn rt s = Inl (OutOfBounds (MAX_CALLBACK_CNT cfg))"
  using callback_bound_exceeds [OF assms(1,2,3)] assms(4)
  by (simp add: CallbackRegister_def)

lemma CallbackRegister_success:
  assumes "unat (event_count s) < MAX_CALLBACK_CNT cfg"
    and "unat (event_count s) < callback_bound cfg"
  shows "CallbackRegister cfg fn rt s =
     Inr (SUCCESS,
          s\<lparr>callback_store := (callback_store s)[unat (event_count s) :=
               \<lparr>enabled = False, func = fn, run_time = rt - 1,
                next_run_time = now s + rt * MILLISECOND cfg\<rparr>],
            event_count := event_count s + 1\<rparr>)"
  using assms by (simp add: CallbackRegister_def)

lemma first_callback_bounds:
  "i \<le> first_callback fn i s \<and>
   (i \<le> unat (event_count s) \<longrightarrow> first_callback fn i s \<le> unat (event_count s))"
proof (induction "unat (event_count s) - i" arbitrary: i)
  case 0
  then show ?case by (subst (1 2) first_callback.simps) simp
next
  case (Suc k i)
  then have inr: "i < unat (event_count s)" and k: "k = unat (event_count s) - (i + 1)"
    by simp_all
  from Suc(1) [OF k] inr show ?case
    by (subst (1 2) first_callback.simps) auto
qed

lemma first_callback_found:
  "first_callback fn i s < unat (event_count s) \<Longrightarrow>
   func (callback_store s ! first_callback fn i s) = fn"
proof (induction "unat (event_count s) - i" arbitrary: i)
  case 0
  then show ?case
    using first_callback_bounds [of i fn s] by simp
next
  case (Suc k i)
  then have inr: "i < unat (event_count s)" and k: "k = unat (event_count s) - (i + 1)"
    by simp_all
  show ?case
  proof (cases "fn = func (callback_store s ! i)")
    case True
    with inr have "first_callback fn i s = i"
      by (subst first_callback.simps) simp
    with True show ?thesis by simp
  next
    case False
    with inr have eq: "first_callback fn i s = first_callback fn (i + 1) s"
      by (subst first_callback.simps) simp
    from Suc(1) [OF k] Suc.prems show ?thesis
      by (simp add: eq)
  qed
qed

lemma first_callback_first:
  "i \<le> j \<Longrightarrow> j < first_callback fn i s \<Longrightarrow> func (callback_store s ! j) \<noteq> fn"
proof (induction "unat (event_count s) - i" arbitrary: i)
  case 0
  then have "first_callback fn i s = i"
    by (subst first_callback.simps) simp
  with 0 show ?case by simp
next
  case (Suc k i)
  then have inr: "i < unat (event_count s)" and k: "k = unat (event_count s) - (i + 1)"
    by simp_all
  show ?case
  proof (cases "fn = func (callback_store s ! i)")
    case True
    with inr have "first_callback fn i s = i"
      by (subst first_callback.simps) simp
    with Suc.prems show ?thesis by simp
  next
    case False
    with inr have eq: "first_callback fn i s = first_callback fn (i + 1) s"
      by (subst first_callback.simps) simp
    show ?thesis
    proof (cases "j = i")
      case True
      with False show ?thesis by simp
    next
      case ne: False
      with Suc.prems have "i + 1 \<le> j" by simp
      moreover from Suc.prems have "j < first_callback fn (i + 1) s"
        by (simp add: eq)
      ultimately show ?thesis by (rule Suc(1) [OF k])
    qed
  qed
qed

lemma CallbackMode_loop_eq:
  "CallbackMode_loop cfg fn mode i s =
     (if first_callback fn i s < unat (event_count s) then
        s\<lparr>callback_store := (callback_store s)[first_callback fn i s :=
             (callback_store s ! first_callback fn i s)
               \<lparr>enabled := mode,
                next_run_time :=
                  (if mode
                   then now s + run_time (callback_store s ! first_callback fn i s) * MILLISECOND cfg
                   else next_run_time (callback_store s ! first_callback fn i s))\<rparr>]\<rparr>
      else s)"
  if "unat (event_count s) \<le> length (callback_store s)"
proof (induction "unat (event_count s) - i" arbitrary: i)
  case 0
  then show ?case
    by (subst CallbackMode_loop.simps, subst (1 2) first_callback.simps) simp
next
  case (Suc k i)
  then have inr: "i < unat (event_count s)" and k: "k = unat (event_count s) - (i + 1)"
    by simp_all
  with that have len: "i < length (callback_store s)" by simp
  show ?case
  proof (cases "fn = func (callback_store s ! i)")
    case True
    with inr have "first_callback fn i s = i"
      by (subst first_callback.simps) simp
    with True inr len show ?thesis
      by (subst CallbackMode_loop.simps) (simp add: Let_def)
  next
    case False
    with inr have "first_callback fn i s = first_callback fn (i + 1) s"
      by (subst first_callback.simps) simp
    moreover from False inr have "CallbackMode_loop cfg fn mode i s = CallbackMode_loop cfg fn mode (i + 1) s"
      by (subst CallbackMode_loop.simps) simp
    ultimately show ?thesis
      using Suc(1) [OF k] by simp
  qed
qed

lemma CallbackMode_eq:
  assumes "state_ok cfg s"
  shows "CallbackMode cfg fn mode s =
     (if first_callback fn 0 s < unat (event_count s) then
        s\<lparr>callback_store := (callback_store s)[first_callback fn 0 s :=
             (callback_store s ! first_callback fn 0 s)
               \<lparr>enabled := mode,
                next_run_time :=
                  (if mode
                   then now s + run_time (callback_store s ! first_callback fn 0 s) * MILLISECOND cfg
                   else next_run_time (callback_store s ! first_callback fn 0 s))\<rparr>]\<rparr>
      else s)"
proof -
  from assms have "unat (event_count s) \<le> length (callback_store s)"
    by (simp add: state_ok_def)
  then show ?thesis
    unfolding CallbackMode_def by (rule CallbackMode_loop_eq)
qed

lemma disabled_never_due:
  "\<not> enabled (callback_store s ! i) \<Longrightarrow> \<not> callback_due ct i s"
  by (simp add: callback_due_def)

lemma disabled_not_fired:
  assumes "inert beh" and "\<not> enabled (callback_store s ! i)"
  shows "CallbackFired i h \<notin> set (fst (ScheduleTimerOverflow cfg beh s))"
  using assms(2)
  by (auto simp: ScheduleTimerOverflow_inert [OF assms(1)] set_due_callbacks callback_due_def)

lemma enabled_fired_iff:
  assumes "inert beh"
  shows "CallbackFired i h \<in> set (fst (ScheduleTimerOverflow cfg beh s)) \<longleftrightarrow>
         i < unat (event_count s) \<and> enabled (callback_store s ! i) \<and>
         now s + 1 = next_run_time (callback_store s ! i) \<and> h = func (callback_store s ! i)"
  by (auto simp: ScheduleTimerOverflow_inert [OF assms(1)] set_due_callbacks callback_due_def)

subsection \<open>The schedule of an enabled callback\<close>

lemma reschedule_nth:
  "i < length cs \<Longrightarrow> distinct js \<Longrightarrow>
   reschedule cfg ct js cs ! i =
     (if i \<in> set js
      then (cs ! i)\<lparr>next_run_time := ct + run_time (cs ! i) * MILLISECOND cfg\<rparr>
      else cs ! i)"
proof (induction js arbitrary: cs)
  case Nil
  then show ?case by (simp add: reschedule_def)
next
  case (Cons j js)
  let ?cs = "cs[j := (cs ! j)\<lparr>next_run_time := ct + run_time (cs ! j) * MILLISECOND cfg\<rparr>]"
  have step: "reschedule cfg ct (j # js) cs = reschedule cfg ct js ?cs"
    by (simp add: reschedule_def)
  from Cons.prems have "i < length ?cs" and "distinct js" and nj: "j \<notin> set js"
    by simp_all
  then have "reschedule cfg ct js ?cs ! i =
     (if i \<in> set js
      then (?cs ! i)\<lparr>next_run_time := ct + run_time (?cs ! i) * MILLISECOND cfg\<rparr>
      else ?cs ! i)"
    by (intro Cons.IH)
  with Cons.prems(1) nj show ?case
    by (cases "i = j") (auto simp: step nth_list_update)
qed

lemma next_multiple:
  fixes n d :: nat
  assumes "0 < d"
  shows "(Suc n mod d = 0 \<longrightarrow>
            Suc n = d * (n div d + 1) \<and> Suc n div d = n div d + 1) \<and>
         (Suc n mod d \<noteq> 0 \<longrightarrow>
            Suc n < d * (n div d + 1) \<and> d * (n div d + 1) < Suc n + d \<and>
            Suc n div d = n div d)"
proof -
  have n: "n = d * (n div d) + n mod d"
    by simp
  have r: "n mod d < d"
    using assms by simp
  have z: "Suc n mod d = 0 \<longleftrightarrow> Suc (n mod d) = d"
    by (simp add: mod_Suc)
  have e: "d * (n div d + 1) = d * (n div d) + d"
    by (simp add: algebra_simps)
  show ?thesis
  proof (cases "Suc n mod d = 0")
    case True
    with z have "Suc (n mod d) = d" by simp
    with n e have "Suc n = d * (n div d + 1)" by arith
    with True assms show ?thesis by (simp only: div_Suc) simp
  next
    case False
    with z r have "Suc (n mod d) < d" by arith
    with n e have "Suc n < d * (n div d + 1) \<and> d * (n div d + 1) < Suc n + d" by arith
    with False show ?thesis by (simp add: div_Suc)
  qed
qed

lemma distinct_due_callbacks: "distinct (due_callbacks ct i s)"
  by (simp add: due_callbacks_def)

lemma callback_entry_tick:
  assumes "inert beh" and "i < length (callback_store s)"
  shows "callback_store (snd (ScheduleTimerOverflow cfg beh s)) ! i =
     (if i < unat (event_count s) \<and> callback_due (now s + 1) i s
      then (callback_store s ! i)\<lparr>next_run_time :=
             now s + 1 + run_time (callback_store s ! i) * MILLISECOND cfg\<rparr>
      else callback_store s ! i)"
  using assms(2)
  by (simp add: ScheduleTimerOverflow_inert [OF assms(1)] reschedule_nth
      distinct_due_callbacks set_due_callbacks)

lemma event_count_tick:
  "inert beh \<Longrightarrow> event_count (snd (ScheduleTimerOverflow cfg beh s)) = event_count s"
  by (simp add: ScheduleTimerOverflow_inert)

lemma length_callback_store_tick:
  "inert beh \<Longrightarrow>
   length (callback_store (snd (ScheduleTimerOverflow cfg beh s))) = length (callback_store s)"
  by (simp add: ScheduleTimerOverflow_inert length_reschedule)

lemma of_nat_between_fires:
  assumes "n < m" and "m < n + fire_delay p"
  shows "(of_nat n :: 32 word) \<noteq> of_nat m"
proof
  assume eq: "(of_nat n :: 32 word) = of_nat m"
  from assms(1) have m: "m = n + (m - n)" by simp
  have "(of_nat m :: 32 word) = of_nat n + of_nat (m - n)"
    by (subst m) (simp only: of_nat_add)
  with eq have z: "(of_nat (m - n) :: 32 word) = 0" by simp
  from assms have "0 < m - n" and "m - n < fire_delay 0"
    using fire_delay_le [of p] by (simp_all add: fire_delay_def)
  then have "(of_nat (m - n) :: 32 word) \<noteq> 0"
    by (rule of_nat_before_fire_delay)
  with z show False by simp
qed

lemma callback_schedule:
  assumes "inert beh"
    and "i < unat (event_count s)" and "i < length (callback_store s)"
    and "enabled (callback_store s ! i)"
    and "next_run_time (callback_store s ! i) =
           now s + run_time (callback_store s ! i) * MILLISECOND cfg"
  defines "d \<equiv> fire_delay (run_time (callback_store s ! i) * MILLISECOND cfg)"
  shows "callback_store (ticks cfg beh n s) ! i =
           (callback_store s ! i)\<lparr>next_run_time := now s + of_nat (d * (n div d + 1))\<rparr> \<and>
         event_count (ticks cfg beh n s) = event_count s \<and>
         length (callback_store (ticks cfg beh n s)) = length (callback_store s)"
proof (induction n)
  case 0
  have "(of_nat d :: 32 word) = run_time (callback_store s ! i) * MILLISECOND cfg"
    unfolding d_def by (rule of_nat_fire_delay)
  moreover have "0 < d"
    unfolding d_def by (rule fire_delay_pos)
  ultimately show ?case
    using assms(5) by simp
next
  case (Suc n)
  let ?sn = "ticks cfg beh n s"
  let ?e = "callback_store s ! i"
  have kc: "keeps_clock beh"
    using assms(1) by (simp add: inert_keeps)
  have dpos: "0 < d"
    unfolding d_def by (rule fire_delay_pos)
  have dw: "(of_nat d :: 32 word) = run_time ?e * MILLISECOND cfg"
    unfolding d_def by (rule of_nat_fire_delay)
  from Suc have en: "callback_store ?sn ! i = ?e\<lparr>next_run_time := now s + of_nat (d * (n div d + 1))\<rparr>"
    and ec: "event_count ?sn = event_count s"
    and len: "length (callback_store ?sn) = length (callback_store s)"
    by simp_all
  have nw: "now ?sn + 1 = now s + of_nat (Suc n)"
    by (simp add: ticks_now [OF kc] ac_simps)
  have il: "i < length (callback_store ?sn)"
    using assms(3) len by simp
  note nm = next_multiple [OF dpos, of n]
  have due_iff: "callback_due (now ?sn + 1) i ?sn \<longleftrightarrow> Suc n mod d = 0"
  proof (cases "Suc n mod d = 0")
    case True
    with nm have "Suc n = d * (n div d + 1)" by blast
    then have "(of_nat (Suc n) :: 32 word) = of_nat (d * (n div d + 1))" by simp
    with True assms(4) show ?thesis
      by (simp only: callback_due_def en nw) simp
  next
    case False
    with nm have "Suc n < d * (n div d + 1)" and "d * (n div d + 1) < Suc n + d"
      by blast+
    then have "(of_nat (Suc n) :: 32 word) \<noteq> of_nat (d * (n div d + 1))"
      unfolding d_def by (rule of_nat_between_fires)
    with False show ?thesis
      by (simp only: callback_due_def en nw) simp
  qed
  have entry: "callback_store (ticks cfg beh (Suc n) s) ! i =
      ?e\<lparr>next_run_time := now s + of_nat (d * (Suc n div d + 1))\<rparr>"
  proof (cases "Suc n mod d = 0")
    case True
    with nm have sn: "Suc n = d * (n div d + 1)" and dv: "Suc n div d = n div d + 1"
      by blast+
    have "d * (Suc n div d + 1) = d * (n div d + 1) + d"
      by (simp only: dv) (simp add: algebra_simps)
    also have "\<dots> = Suc n + d"
      by (simp only: sn [symmetric])
    finally have "d * (Suc n div d + 1) = Suc n + d" .
    then have "(of_nat (d * (Suc n div d + 1)) :: 32 word) = of_nat (Suc n) + of_nat d"
      by (simp only: of_nat_add)
    then have nx: "now s + of_nat (d * (Suc n div d + 1)) =
        now ?sn + 1 + run_time ?e * MILLISECOND cfg"
      by (simp only: nw dw add.assoc)
    have "callback_store (snd (ScheduleTimerOverflow cfg beh ?sn)) ! i =
        (callback_store ?sn ! i)\<lparr>next_run_time :=
             now ?sn + 1 + run_time (callback_store ?sn ! i) * MILLISECOND cfg\<rparr>"
      using True due_iff assms(2) ec by (simp add: callback_entry_tick [OF assms(1) il])
    then have "callback_store (ticks cfg beh (Suc n) s) ! i =
        ?e\<lparr>next_run_time := now ?sn + 1 + run_time ?e * MILLISECOND cfg\<rparr>"
      by (simp add: en)
    then show ?thesis
      by (simp only: nx)
  next
    case False
    with nm have dv: "Suc n div d = n div d" by blast
    have "callback_store (snd (ScheduleTimerOverflow cfg beh ?sn)) ! i = callback_store ?sn ! i"
      using False due_iff by (simp add: callback_entry_tick [OF assms(1) il])
    then show ?thesis
      by (simp add: en dv)
  qed
  have "event_count (ticks cfg beh (Suc n) s) = event_count s"
    by (simp add: event_count_tick [OF assms(1)] ec)
  moreover have "length (callback_store (ticks cfg beh (Suc n) s)) = length (callback_store s)"
    by (simp add: length_callback_store_tick [OF assms(1)] len)
  ultimately show ?case
    using entry by blast
qed

lemma callback_fires_every:
  assumes "inert beh"
    and "i < unat (event_count s)" and "i < length (callback_store s)"
    and "enabled (callback_store s ! i)"
    and "next_run_time (callback_store s ! i) =
           now s + run_time (callback_store s ! i) * MILLISECOND cfg"
  shows "CallbackFired i h \<in> set (fired_at cfg beh n s) \<longleftrightarrow>
         Suc n mod fire_delay (run_time (callback_store s ! i) * MILLISECOND cfg) = 0 \<and>
         h = func (callback_store s ! i)"
proof -
  define d where "d = fire_delay (run_time (callback_store s ! i) * MILLISECOND cfg)"
  let ?sn = "ticks cfg beh n s"
  have kc: "keeps_clock beh"
    using assms(1) by (simp add: inert_keeps)
  have dpos: "0 < d"
    unfolding d_def by (rule fire_delay_pos)
  note sch = callback_schedule [OF assms, of n, folded d_def]
  then have en: "callback_store ?sn ! i =
      (callback_store s ! i)\<lparr>next_run_time := now s + of_nat (d * (n div d + 1))\<rparr>"
    and ec: "event_count ?sn = event_count s"
    by blast+
  have nw: "now ?sn + 1 = now s + of_nat (Suc n)"
    by (simp add: ticks_now [OF kc] ac_simps)
  note nm = next_multiple [OF dpos, of n]
  have eq_iff: "(of_nat (Suc n) :: 32 word) = of_nat (d * (n div d + 1)) \<longleftrightarrow> Suc n mod d = 0"
  proof (cases "Suc n mod d = 0")
    case True
    with nm have "Suc n = d * (n div d + 1)" by blast
    then have "(of_nat (Suc n) :: 32 word) = of_nat (d * (n div d + 1))" by simp
    with True show ?thesis by simp
  next
    case False
    with nm have "Suc n < d * (n div d + 1)" and "d * (n div d + 1) < Suc n + d"
      by blast+
    then have "(of_nat (Suc n) :: 32 word) \<noteq> of_nat (d * (n div d + 1))"
      unfolding d_def by (rule of_nat_between_fires)
    with False show ?thesis by simp
  qed
  have "CallbackFired i h \<in> set (fired_at cfg beh n s) \<longleftrightarrow>
      (of_nat (Suc n) :: 32 word) = of_nat (d * (n div d + 1)) \<and> h = func (callback_store s ! i)"
    using assms(2,4)
    by (simp only: fired_at_def enabled_fired_iff [OF assms(1)] ec en nw) simp
  with eq_iff have "CallbackFired i h \<in> set (fired_at cfg beh n s) \<longleftrightarrow>
      Suc n mod d = 0 \<and> h = func (callback_store s ! i)"
    by simp
  then show ?thesis
    unfolding d_def .
qed

lemma registered_callback_fires:
  assumes "inert beh" and "config_ok cfg" and "state_ok cfg s"
    and "CallbackRegister cfg fn P s = Inr (SUCCESS, s1)"
    and "first_callback fn 0 s1 = unat (event_count s)"
  shows "CallbackFired (unat (event_count s)) h \<in>
           set (fired_at cfg beh n (CallbackMode cfg fn True s1)) \<longleftrightarrow>
         Suc n mod fire_delay ((P - 1) * MILLISECOND cfg) = 0 \<and> h = fn"
proof -
  let ?k = "unat (event_count s)"
  let ?e = "\<lparr>enabled = False, func = fn, run_time = P - 1,
             next_run_time = now s + P * MILLISECOND cfg\<rparr>"
  from assms(4) have lt: "?k < MAX_CALLBACK_CNT cfg"
    and s1: "s1 = s\<lparr>callback_store := (callback_store s)[?k := ?e],
                     event_count := event_count s + 1\<rparr>"
    by (simp_all add: CallbackRegister_def split: if_splits)
  from lt assms(2) have "?k + 1 < 2 ^ LENGTH(8)"
    by (simp add: config_ok_def)
  then have ec1: "unat (event_count s + 1) = ?k + 1"
    by (simp add: unat_word_ariths)
  from lt assms(3) have len: "?k < length (callback_store s)"
    by (simp add: state_ok_def)
  have ok1: "state_ok cfg s1"
    using assms(3) lt by (simp add: s1 state_ok_def ec1)
  let ?s2 = "CallbackMode cfg fn True s1"
  have s2: "?s2 = s1\<lparr>callback_store := (callback_store s1)[?k :=
       \<lparr>enabled = True, func = fn, run_time = P - 1,
        next_run_time = now s + (P - 1) * MILLISECOND cfg\<rparr>]\<rparr>"
    using len by (simp add: CallbackMode_eq [OF ok1] assms(5)) (simp add: s1 ec1)
  have "CallbackFired ?k h \<in> set (fired_at cfg beh n ?s2) \<longleftrightarrow>
         Suc n mod fire_delay (run_time (callback_store ?s2 ! ?k) * MILLISECOND cfg) = 0 \<and>
         h = func (callback_store ?s2 ! ?k)"
  proof (rule callback_fires_every [OF assms(1)])
    show "?k < unat (event_count ?s2)"
      by (simp add: s2) (simp add: s1 ec1)
    show "?k < length (callback_store ?s2)"
      using len by (simp add: s2) (simp add: s1)
    show "enabled (callback_store ?s2 ! ?k)"
      using len by (simp add: s2) (simp add: s1)
    show "next_run_time (callback_store ?s2 ! ?k) =
           now ?s2 + run_time (callback_store ?s2 ! ?k) * MILLISECOND cfg"
      using len by (simp add: s2) (simp add: s1)
  qed
  moreover have "callback_store ?s2 ! ?k =
       \<lparr>enabled = True, func = fn, run_time = P - 1,
        next_run_time = now s + (P - 1) * MILLISECOND cfg\<rparr>"
    using len by (simp add: s2) (simp add: s1)
  ultimately show ?thesis
    by simp
qed

section \<open>The example states, evaluated\<close>

lemma both_due_tick:
  "fst (ScheduleTimerOverflow demo idle both_due) = [CallbackFired 0 7, CalloutFired 0 5] \<and>
   fst (callback_phase demo idle both_due) = [CallbackFired 0 7] \<and>
   fst (callout_phase demo idle both_due) = [CalloutFired 0 5]"
  by code_simp

lemma two_pending_pass:
  "fst (CalloutService demo idle 1 two_pending) = [CalloutFired 0 3, CalloutFired 1 1] \<and>
   callout_map two_pending = 3 \<and>
   callout_map (snd (CalloutService demo idle 1 two_pending)) = 0 \<and>
   callout_store (snd (CalloutService demo idle 1 two_pending)) =
     [\<lparr>co_func = 3, co_run_time = 1\<rparr>, \<lparr>co_func = 1, co_run_time = 1\<rparr>] \<and>
   callout_map (CalloutCancel demo 1 two_pending) = 1 \<and>
   callout_store (CalloutCancel demo 1 two_pending) =
     [\<lparr>co_func = 3, co_run_time = 1\<rparr>, \<lparr>co_func = 1, co_run_time = 1\<rparr>]"
  by code_simp



section \<open>The stored period of a callback\<close>

text \<open>
  C1. A callback registered with period \<open>P\<close> and enabled at tick \<open>T\<close> must fire at
  \<open>T + P\<close>, \<open>T + 2P\<close>, ... and at no other tick. \<^verbatim>\<open>CallbackRegister\<close> stores
  \<open>P - 1\<close> as the period, so the callback fires every
  \<open>fire_delay ((P - 1) * _MILLISECOND)\<close> ticks (lemma \<open>registered_callback_fires\<close>).
  Registered with period 10 at tick 0 and enabled at tick 0, with one tick per unit,
  it is first scheduled for tick 10 by the registration, then for tick 9 by the
  enabling, and it fires at ticks 9 and 18 (the interrupts after 8 and after 17
  earlier ones), not at tick 10.
\<close>

theorem callback_period_one_short:
  "(case CallbackRegister demo 7 10 (init demo) of
      Inl f \<Rightarrow> False
    | Inr (r, s) \<Rightarrow>
        r = SUCCESS \<and>
        next_run_time (callback_store s ! 0) = 10 \<and>
        next_run_time (callback_store (CallbackMode demo 7 True s) ! 0) = 9 \<and>
        map (\<lambda>n. fired_at demo idle n (CallbackMode demo 7 True s)) [0..<19] =
          [[], [], [], [], [], [], [], [], [CallbackFired 0 7], [],
           [], [], [], [], [], [], [], [CallbackFired 0 7], []])"
  by code_simp

section \<open>The capacity of the callback table\<close>

text \<open>
  C2. A registration must fail once the table holds as many entries as its capacity,
  and then change nothing. For the callouts this is so (lemma \<open>CalloutRegister_eq\<close>).
  For the callbacks the bound of the code is the size of the array divided by the size
  of a function pointer, which exceeds \<^verbatim>\<open>MAX_CALLBACK_CNT\<close> (lemma
  \<open>callback_bound_exceeds\<close>). With \<^verbatim>\<open>MAX_CALLBACK_CNT\<close> = 2 the bound is
  2 * 12 / 2 = 12: the third registration does not return FAILURE, it takes the
  success branch and writes \<^verbatim>\<open>callback_store[2]\<close>, behind the array.
\<close>

theorem callback_register_overruns:
  "(case CallbackRegister demo 7 10 (init demo) of
      Inl f \<Rightarrow> False
    | Inr (r1, s1) \<Rightarrow>
        (case CallbackRegister demo 8 10 s1 of
           Inl f \<Rightarrow> False
         | Inr (r2, s2) \<Rightarrow>
             r1 = SUCCESS \<and> r2 = SUCCESS \<and> unat (event_count s2) = MAX_CALLBACK_CNT demo \<and>
             callback_bound demo = 12 \<and>
             CallbackRegister demo 9 10 s2 = Inl (OutOfBounds 2) \<and>
             CallbackRegister demo 9 10 s2 \<noteq> Inr (FAILURE, s2)))"
  by code_simp

section \<open>The life of a callout\<close>



section \<open>Cancelling a callout\<close>

text \<open>
  C4. \<^verbatim>\<open>CalloutCancel\<close> must clear the bit of the first occupied slot that stores the
  handler. The code compares the stored handler of every slot, occupied or not, and
  stops at the first match (lemma \<open>CalloutCancel_loop_eq\<close>). Handler 5 is registered
  twice (slots 0 and 1, delays 1 and 4). After tick 1 slot 0 has fired and is vacant,
  but still stores handler 5. Cancelling handler 5 stops at slot 0: the state does not
  change, slot 1 stays occupied and its callout fires at tick 4.
\<close>

theorem callout_cancel_stops_at_vacant_slot:
  "(let s2 = snd (CalloutRegister demo 5 4 (snd (CalloutRegister demo 5 1 (init demo))));
        s3 = ticks demo idle 1 s2;
        s4 = CalloutCancel demo 5 s3
    in callout_map s2 = 3 \<and>
       fired_at demo idle 0 s2 = [CalloutFired 0 5] \<and>
       callout_map s3 = 2 \<and>
       co_func (callout_store s3 ! 0) = 5 \<and>
       co_func (callout_store s3 ! 1) = 5 \<and>
       s4 = s3 \<and>
       map (\<lambda>n. fired_at demo idle n s4) [0..<4] = [[], [], [CalloutFired 1 5], []])"
  by code_simp

section \<open>The early exit of the service passes\<close>




section \<open>A slot claimed again during a pass\<close>

text \<open>
  C6, as stated: a slot freed earlier in a pass and claimed again by a handler fires
  again in that pass when its new fire time is the current tick. In \<open>two_pending\<close>
  slot 0 fires and is freed, then the handler of slot 1 registers handler 2 with
  delay 0, which claims slot 0 with the current tick 1 as fire time. The pass does not
  return to slot 0: handler 2 is not called and slot 0 stays occupied.
\<close>

theorem reclaimed_slot_not_serviced_again:
  "fst (CalloutService demo (rereg demo) 1 two_pending) =
     [CalloutFired 0 3, CalloutFired 1 1] \<and>
   callout_map (snd (CalloutService demo (rereg demo) 1 two_pending)) = 1 \<and>
   callout_store (snd (CalloutService demo (rereg demo) 1 two_pending)) ! 0 =
     \<lparr>co_func = 2, co_run_time = 1\<rparr>"
  by code_simp

text \<open>
  C6, amended: whatever the handlers do, a pass calls handlers from slots of strictly
  ascending index. So no slot is serviced twice in a pass, and a slot that was freed
  earlier in the pass and claimed again is not serviced in that pass, whatever its new
  fire time.
\<close>

theorem callout_pass_ascending:
  "sorted_wrt (<) (map index_of (fst (CalloutService cfg beh ct s)))"
  using CalloutService_loop_ascending [of cfg beh ct 0 "get_callout_map_size s" s]
  by (simp add: CalloutService_def)

section \<open>Enabling a callback again\<close>

text \<open>
  C7. \<^verbatim>\<open>CallbackMode\<close> changes the first registered entry that stores the handler:
  it sets the flag and, when enabling, schedules the next run at \<^verbatim>\<open>now\<close> plus the
  stored period (lemma \<open>CallbackMode_eq\<close>), so that a callback of period \<open>P\<close> enabled
  again at tick \<open>T'\<close> next fires at \<open>T' + P\<close>. The stored period is \<open>P - 1\<close>: a
  callback registered with period 10 and enabled again at tick 3 is scheduled for tick
  12 and fires there, not at tick 13.
\<close>

theorem callback_reenable_one_short:
  "(case CallbackRegister demo 7 10 (init demo) of
      Inl f \<Rightarrow> False
    | Inr (r, s) \<Rightarrow>
        (let s3 = CallbackMode demo 7 True (ticks demo idle 3 s)
         in now s3 = 3 \<and>
            callback_store s3 ! 0 =
              \<lparr>enabled = True, func = 7, run_time = 9, next_run_time = 12\<rparr> \<and>
            map (\<lambda>n. fired_at demo idle n s3) [0..<10] =
              [[], [], [], [], [], [], [], [], [CallbackFired 0 7], []]))"
  by code_simp

section \<open>The clock\<close>

text \<open>
  C8. The counter starts at 0. When no handler writes \<^verbatim>\<open>now\<close>, every tick interrupt
  adds exactly 1 to it, and after \<open>n\<close> interrupts \<^verbatim>\<open>TimeNow\<close> returns \<open>n\<close> modulo
  \<open>2 ^ 32\<close>.
\<close>

theorem clock_counts_ticks:
  assumes "keeps_clock beh"
  shows "TimeNow (init cfg) = 0 \<and>
         TimeNow (snd (ScheduleTimerOverflow cfg beh s)) = TimeNow s + 1 \<and>
         TimeNow (ticks cfg beh n (init cfg)) = of_nat n \<and>
         unat (TimeNow (ticks cfg beh n (init cfg))) = n mod 2 ^ 32"
proof -
  have "now (ticks cfg beh n (init cfg)) = of_nat n"
    using ticks_now [OF assms, of cfg n "init cfg"] by (simp add: init_def)
  then show ?thesis
    by (simp add: TimeNow_def ScheduleTimerOverflow_now [OF assms] init_def unat_of_nat)
qed

theorem clock_counts_ticks_witness:
  "keeps_clock idle \<and>
   TimeNow (init demo) = 0 \<and>
   TimeNow (snd (ScheduleTimerOverflow demo idle two_pending)) = TimeNow two_pending + 1 \<and>
   TimeNow (ticks demo idle 3 (init demo)) = 3 \<and>
   unat (TimeNow (ticks demo idle 3 (init demo))) = 3"
proof -
  have k: "keeps_clock idle"
    by (simp add: keeps_clock_def idle_def)
  from k clock_counts_ticks [OF k, of demo two_pending 3]
  show ?thesis by simp
qed

section \<open>The order of the two passes\<close>

text \<open>
  C9. A tick interrupt advances the clock by 1, then services the callbacks, then the
  callouts, both with the incremented clock value (provided no handler writes the
  clock): its events are those of the callback pass followed by those of the callout
  pass, the first all from callbacks and the second all from callouts. With handlers
  that do not touch the scheduler these are the callbacks due at the new tick, then
  the callouts due at the new tick; so a callback due at a tick is called before a
  callout due at the same tick.
\<close>

theorem callbacks_before_callouts:
  assumes "keeps_clock beh"
  shows "ScheduleTimerOverflow cfg beh s =
           (fst (callback_phase cfg beh s) @ fst (callout_phase cfg beh s),
            snd (callout_phase cfg beh s)) \<and>
         list_all is_callback (fst (callback_phase cfg beh s)) \<and>
         list_all (\<lambda>e. \<not> is_callback e) (fst (callout_phase cfg beh s)) \<and>
         (inert beh \<longrightarrow>
            fst (callback_phase cfg beh s) =
              map (\<lambda>j. CallbackFired j (func (callback_store s ! j)))
                (due_callbacks (now s + 1) 0 s) \<and>
            fst (callout_phase cfg beh s) =
              map (\<lambda>j. CalloutFired j (co_func (callout_store s ! j)))
                (due_callouts cfg (now s + 1) 0 s))"
proof -
  have "now (snd (callback_phase cfg beh s)) = now s + 1"
    by (simp add: callback_phase_def CallbackService_now [OF assms])
  then have "ScheduleTimerOverflow cfg beh s =
           (fst (callback_phase cfg beh s) @ fst (callout_phase cfg beh s),
            snd (callout_phase cfg beh s))"
    by (simp add: ScheduleTimerOverflow_unfold callback_phase_def callout_phase_def)
  moreover have "list_all is_callback (fst (callback_phase cfg beh s))"
    by (simp add: callback_phase_def CallbackService_events)
  moreover have "list_all (\<lambda>e. \<not> is_callback e) (fst (callout_phase cfg beh s))"
    by (simp add: callout_phase_def CalloutService_events)
  moreover have "fst (callback_phase cfg beh s) =
              map (\<lambda>j. CallbackFired j (func (callback_store s ! j)))
                (due_callbacks (now s + 1) 0 s) \<and>
            fst (callout_phase cfg beh s) =
              map (\<lambda>j. CalloutFired j (co_func (callout_store s ! j)))
                (due_callouts cfg (now s + 1) 0 s)" if "inert beh"
    by (simp add: callback_phase_def callout_phase_def CallbackService_inert [OF that]
        CalloutService_inert [OF that])
  ultimately show ?thesis by blast
qed

theorem callbacks_before_callouts_witness:
  "keeps_clock idle \<and> inert idle \<and>
   ScheduleTimerOverflow demo idle both_due =
     (fst (callback_phase demo idle both_due) @ fst (callout_phase demo idle both_due),
      snd (callout_phase demo idle both_due)) \<and>
   list_all is_callback (fst (callback_phase demo idle both_due)) \<and>
   list_all (\<lambda>e. \<not> is_callback e) (fst (callout_phase demo idle both_due)) \<and>
   fst (callback_phase demo idle both_due) = [CallbackFired 0 7] \<and>
   fst (callout_phase demo idle both_due) = [CalloutFired 0 5] \<and>
   fst (ScheduleTimerOverflow demo idle both_due) = [CallbackFired 0 7, CalloutFired 0 5]"
proof -
  have k: "keeps_clock idle"
    by (simp add: keeps_clock_def idle_def)
  have i: "inert idle"
    by (simp add: inert_def idle_def)
  from k i callbacks_before_callouts [OF k, of demo both_due] both_due_tick
  show ?thesis by blast
qed

section \<open>What vacating a slot changes\<close>

text \<open>
  C10. \<^verbatim>\<open>CalloutCancel\<close> clears the bit of the first slot that stores the handler, if
  there is one, and changes nothing else. A pass of \<^verbatim>\<open>CalloutService\<close> (with
  handlers that do not touch the scheduler) clears the bits of the slots that were
  occupied and due, and changes nothing else: the handler and the fire time stay in
  the slot array, and the other slots, the callback table and the clock are as before.
  So a vacant slot still stores the handler of the callout that fired or was cancelled.
\<close>

theorem vacated_slot_keeps_contents:
  assumes "inert beh"
  shows "CalloutCancel cfg fn s =
           (if first_match cfg fn 0 s < MAX_CALLOUT_CNT cfg
            then s\<lparr>callout_map := callout_map s AND NOT (BV (first_match cfg fn 0 s))\<rparr>
            else s) \<and>
         CalloutService cfg beh ct s =
           (map (\<lambda>j. CalloutFired j (co_func (callout_store s ! j))) (due_callouts cfg ct 0 s),
            s\<lparr>callout_map := clear_slots (due_callouts cfg ct 0 s) (callout_map s)\<rparr>) \<and>
         (bit (clear_slots (due_callouts cfg ct 0 s) (callout_map s)) j \<longleftrightarrow>
            bit (callout_map s) j \<and>
            \<not> (j < MAX_CALLOUT_CNT cfg \<and> ct = co_run_time (callout_store s ! j))) \<and>
         callout_store (CalloutCancel cfg fn s) = callout_store s \<and>
         callout_store (snd (CalloutService cfg beh ct s)) = callout_store s"
proof -
  have c: "CalloutCancel cfg fn s =
           (if first_match cfg fn 0 s < MAX_CALLOUT_CNT cfg
            then s\<lparr>callout_map := callout_map s AND NOT (BV (first_match cfg fn 0 s))\<rparr>
            else s)"
    by (simp add: CalloutCancel_def CalloutCancel_loop_eq)
  have b: "bit (clear_slots (due_callouts cfg ct 0 s) (callout_map s)) j \<longleftrightarrow>
            bit (callout_map s) j \<and>
            \<not> (j < MAX_CALLOUT_CNT cfg \<and> ct = co_run_time (callout_store s ! j))"
    by (auto simp: bit_clear_slots set_due_callouts callout_due_bit)
  have "callout_store (CalloutCancel cfg fn s) = callout_store s"
    by (simp add: c)
  moreover have "callout_store (snd (CalloutService cfg beh ct s)) = callout_store s"
    by (simp add: CalloutService_inert [OF assms])
  ultimately show ?thesis
    using c b CalloutService_inert [OF assms, of cfg ct s] by blast
qed

theorem vacated_slot_keeps_contents_witness:
  "inert idle \<and>
   CalloutService demo idle 1 two_pending =
     (map (\<lambda>j. CalloutFired j (co_func (callout_store two_pending ! j)))
        (due_callouts demo 1 0 two_pending),
      two_pending\<lparr>callout_map := clear_slots (due_callouts demo 1 0 two_pending)
                                        (callout_map two_pending)\<rparr>) \<and>
   callout_store (CalloutCancel demo 1 two_pending) = callout_store two_pending \<and>
   callout_store (snd (CalloutService demo idle 1 two_pending)) = callout_store two_pending \<and>
   fst (CalloutService demo idle 1 two_pending) = [CalloutFired 0 3, CalloutFired 1 1] \<and>
   callout_map (snd (CalloutService demo idle 1 two_pending)) = 0 \<and>
   callout_store (snd (CalloutService demo idle 1 two_pending)) =
     [\<lparr>co_func = 3, co_run_time = 1\<rparr>, \<lparr>co_func = 1, co_run_time = 1\<rparr>] \<and>
   callout_map (CalloutCancel demo 1 two_pending) = 1"
proof -
  have i: "inert idle"
    by (simp add: inert_def idle_def)
  from i vacated_slot_keeps_contents [OF i, of demo 1 two_pending 1 0] two_pending_pass
  show ?thesis by blast
qed

end
